theory Spec2Isabelle
  imports Complex_Main "HOL-Library.Sublist"
begin

section \<open>Text: characters, trimming, numbers\<close>

text \<open>
  A Python \<open>str\<close> is modelled as a \<open>string\<close>: a list of 8-bit characters, read as the
  code points U+0000..U+00FF. The character classes below are the ones Python has on that
  range, both for \<open>str.strip()\<close> / \<open>str.isspace()\<close> and for \<open>\s\<close>, \<open>\d\<close>
  and \<open>.\<close> of the \<open>re\<close> module on \<open>str\<close> patterns.
\<close>

definition is_space :: "char \<Rightarrow> bool" where
  "is_space c \<longleftrightarrow> c \<in> set [CHR 0x09, CHR 0x0A, CHR 0x0B, CHR 0x0C, CHR 0x0D,
     CHR 0x1C, CHR 0x1D, CHR 0x1E, CHR 0x1F, CHR 0x20, CHR 0x85, CHR 0xA0]"

definition is_digit :: "char \<Rightarrow> bool" where
  "is_digit c \<longleftrightarrow> c \<in> set ''0123456789''"

definition not_newline :: "char \<Rightarrow> bool" where
  "not_newline c \<longleftrightarrow> c \<noteq> CHR 0x0A"

definition ascii_lower :: "char \<Rightarrow> char" where
  "ascii_lower c =
     (case map_of (zip ''ABCDEFGHIJKLMNOPQRSTUVWXYZ'' ''abcdefghijklmnopqrstuvwxyz'') c of
        None \<Rightarrow> c | Some l \<Rightarrow> l)"

text \<open>\<open>text.strip()\<close>: whitespace removed at both ends.\<close>

definition strip :: "string \<Rightarrow> string" where
  "strip s = rev (dropWhile is_space (rev (dropWhile is_space s)))"

text \<open>\<open>text.startswith(p)\<close> and \<open>text.endswith(p)\<close>.\<close>

definition startswith :: "string \<Rightarrow> string \<Rightarrow> bool" where
  "startswith s p \<longleftrightarrow> take (length p) s = p"

definition endswith :: "string \<Rightarrow> string \<Rightarrow> bool" where
  "endswith s p \<longleftrightarrow> length p \<le> length s \<and> drop (length s - length p) s = p"

text \<open>\<open>int(s)\<close> on a string of decimal digits, and \<open>str(n)\<close> of a natural number
  (what an f-string field \<open>{n}\<close> renders). Python integers are unbounded; the limit that
  recent interpreters put on the length of a digit string they convert is a setting of the
  interpreter and is left out.\<close>

definition digit_val :: "char \<Rightarrow> nat" where
  "digit_val c = (case map_of (zip ''0123456789'' [0, 1, 2, 3, 4, 5, 6, 7, 8, 9]) c of
     None \<Rightarrow> 0 | Some v \<Rightarrow> v)"

definition py_int :: "string \<Rightarrow> nat" where
  "py_int s = foldl (\<lambda>a c. 10 * a + digit_val c) 0 s"

definition digit_char :: "nat \<Rightarrow> char" where
  "digit_char d = ''0123456789'' ! (d mod 10)"

fun py_str :: "nat \<Rightarrow> string" where
  "py_str n = (if n < 10 then [digit_char n] else py_str (n div 10) @ [digit_char n])"

declare py_str.simps [simp del]

section \<open>Regular expressions\<close>

text \<open>
  The patterns of the validator, as data. The matcher works by derivatives; for the
  yes/no questions the validator asks (\<open>re.match\<close> and \<open>re.search\<close> used as truth
  values) the backtracking search of Python's \<open>re\<close> finds a match exactly when a prefix,
  respectively a substring, of the text is in the language of the pattern.
\<close>

datatype rx =
    RFail
  | REps
  | RAtom "char \<Rightarrow> bool"
  | RAlt rx rx
  | RSeq rx rx
  | RStar rx

primrec nullable :: "rx \<Rightarrow> bool" where
  "nullable RFail = False"
| "nullable REps = True"
| "nullable (RAtom p) = False"
| "nullable (RAlt r s) = (nullable r \<or> nullable s)"
| "nullable (RSeq r s) = (nullable r \<and> nullable s)"
| "nullable (RStar r) = True"

primrec deriv :: "char \<Rightarrow> rx \<Rightarrow> rx" where
  "deriv c RFail = RFail"
| "deriv c REps = RFail"
| "deriv c (RAtom p) = (if p c then REps else RFail)"
| "deriv c (RAlt r s) = RAlt (deriv c r) (deriv c s)"
| "deriv c (RSeq r s) =
     (if nullable r then RAlt (RSeq (deriv c r) s) (deriv c s) else RSeq (deriv c r) s)"
| "deriv c (RStar r) = RSeq (deriv c r) (RStar r)"

text \<open>The whole text is in the language of the pattern.\<close>

primrec rx_fullmatch :: "rx \<Rightarrow> string \<Rightarrow> bool" where
  "rx_fullmatch r [] = nullable r"
| "rx_fullmatch r (c # cs) = rx_fullmatch (deriv c r) cs"

text \<open>\<open>re.match(r, text)\<close> as a truth value: some prefix of the text matches.\<close>

primrec re_match :: "rx \<Rightarrow> string \<Rightarrow> bool" where
  "re_match r [] = nullable r"
| "re_match r (c # cs) = (nullable r \<or> re_match (deriv c r) cs)"

text \<open>\<open>re.search(r, text)\<close> as a truth value: a match starts at some position.\<close>

primrec re_search :: "rx \<Rightarrow> string \<Rightarrow> bool" where
  "re_search r [] = nullable r"
| "re_search r (c # cs) = (re_match r (c # cs) \<or> re_search r cs)"

text \<open>
  \<open>re.match(r'^...$', text)\<close> without \<open>re.MULTILINE\<close>: the leading \<open>^\<close> adds nothing
  to \<open>re.match\<close>, and the final \<open>$\<close> holds at the end of the text or just before a
  newline that ends it.
\<close>

definition re_match_dollar :: "rx \<Rightarrow> string \<Rightarrow> bool" where
  "re_match_dollar r s \<longleftrightarrow>
     rx_fullmatch r s \<or> (s \<noteq> [] \<and> last s = CHR 0x0A \<and> rx_fullmatch r (butlast s))"

subsection \<open>Pattern syntax\<close>

definition rx_digit :: rx where  \<comment> \<open>\<open>\d\<close>\<close>
  "rx_digit = RAtom is_digit"

definition rx_space :: rx where  \<comment> \<open>\<open>\s\<close>\<close>
  "rx_space = RAtom is_space"

definition rx_dot :: rx where  \<comment> \<open>\<open>.\<close>\<close>
  "rx_dot = RAtom not_newline"

definition rx_plus :: "rx \<Rightarrow> rx" where  \<comment> \<open>\<open>r+\<close>\<close>
  "rx_plus r = RSeq r (RStar r)"

definition rx_opt :: "rx \<Rightarrow> rx" where  \<comment> \<open>\<open>r?\<close>\<close>
  "rx_opt r = RAlt r REps"

definition rx_seq :: "rx list \<Rightarrow> rx" where  \<comment> \<open>juxtaposition\<close>
  "rx_seq rs = foldr RSeq rs REps"

definition rx_alts :: "rx list \<Rightarrow> rx" where  \<comment> \<open>\<open>(?:a|b|c)\<close>\<close>
  "rx_alts rs = foldr RAlt rs RFail"

definition rx_lit :: "string \<Rightarrow> rx" where  \<comment> \<open>literal text\<close>
  "rx_lit s = rx_seq (map (\<lambda>c. RAtom (\<lambda>x. x = c)) s)"

definition rx_lit_ci :: "string \<Rightarrow> rx" where  \<comment> \<open>literal text under \<open>re.IGNORECASE\<close>\<close>
  "rx_lit_ci s = rx_seq (map (\<lambda>c. RAtom (\<lambda>x. ascii_lower x = ascii_lower c)) s)"

section \<open>Data model\<close>

datatype Severity = CRITICAL | WARNING | INFO

record ValidationIssue =
  severity :: Severity
  issue_section :: string
  message :: string
  paragraph_number :: "int option"

definition ValidationIssue ::
  "Severity \<Rightarrow> string \<Rightarrow> string \<Rightarrow> int option \<Rightarrow> ValidationIssue" where
  "ValidationIssue sev sec msg pn =
     \<lparr>severity = sev, issue_section = sec, message = msg, paragraph_number = pn\<rparr>"

text \<open>
  What the validator reads of a parsed document: the paragraph texts in order, and the
  page margins of each section, a length in EMU (914400 to the inch) or absent.
\<close>

record Section =
  top_margin :: "int option"
  bottom_margin :: "int option"
  left_margin :: "int option"
  right_margin :: "int option"

record Document =
  doc_paragraphs :: "string list"
  doc_sections :: "Section list"

record MemorandumValidator =
  issues :: "ValidationIssue list"
  document :: "Document option"
  paragraphs :: "string list"

definition append_issue :: "ValidationIssue \<Rightarrow> MemorandumValidator \<Rightarrow> MemorandumValidator" where
  "append_issue i self = self\<lparr>issues := issues self @ [i]\<rparr>"

section \<open>Paragraph locator\<close>

text \<open>
  \<open>_find_paragraph_index(pattern, start)\<close>: the index of the first paragraph from
  \<open>start\<close> on whose text the pattern is found, or -1.
\<close>

fun find_from :: "rx \<Rightarrow> string list \<Rightarrow> int \<Rightarrow> int" where
  "find_from pat [] i = -1"
| "find_from pat (t # ts) i = (if re_search pat t then i else find_from pat ts (i + 1))"

definition find_paragraph_index :: "MemorandumValidator \<Rightarrow> rx \<Rightarrow> int \<Rightarrow> int" where
  "find_paragraph_index self pat start =
     find_from pat (drop (nat start) (paragraphs self)) start"

definition get_text_by_index :: "MemorandumValidator \<Rightarrow> int \<Rightarrow> string" where
  "get_text_by_index self index =
     (if 0 \<le> index \<and> index < int (length (paragraphs self))
      then strip (paragraphs self ! nat index) else [])"

section \<open>Date check\<close>

definition month_names :: "string list" where
  "month_names = [''January'', ''February'', ''March'', ''April'', ''May'', ''June'', ''July'',
     ''August'', ''September'', ''October'', ''November'', ''December'']"

text \<open>\<^verbatim>\<open>^\d{1,2}\s+(?:January|...|December)\s+\d{4}\s*$\<close> (the final \<open>$\<close> is
  supplied by \<open>re_match_dollar\<close>).\<close>

definition date_pattern :: rx where
  "date_pattern = rx_seq [rx_digit, rx_opt rx_digit, rx_plus rx_space,
     rx_alts (map rx_lit month_names), rx_plus rx_space,
     rx_digit, rx_digit, rx_digit, rx_digit, RStar rx_space]"

text \<open>
  \<open>datetime.strptime(text, '%d %B %Y')\<close> of the standard library, as the truth value
  "returns without \<open>ValueError\<close>", with English month names. The library turns the format
  into the regular expression
  \<^verbatim>\<open>(?P<d>3[0-1]|[1-2]\d|0[1-9]|[1-9]| [1-9])\s+(?P<B>january|...)\s+(?P<Y>\d\d\d\d)\<close>
  under \<open>re.IGNORECASE\<close>, requires it to cover the whole text, and then builds the
  date, which fails for year 0 and for a day the month does not have.
\<close>

definition rx_oneof :: "string \<Rightarrow> rx" where  \<comment> \<open>\<open>[...]\<close>\<close>
  "rx_oneof cs = RAtom (\<lambda>x. x \<in> set cs)"

definition strptime_format :: rx where
  "strptime_format = rx_seq [
     rx_alts [RSeq (rx_lit ''3'') (rx_oneof ''01''), RSeq (rx_oneof ''12'') rx_digit,
              RSeq (rx_lit ''0'') (rx_oneof ''123456789''), rx_oneof ''123456789'',
              RSeq (rx_lit '' '') (rx_oneof ''123456789'')],
     rx_plus rx_space, rx_alts (map rx_lit_ci month_names), rx_plus rx_space,
     rx_digit, rx_digit, rx_digit, rx_digit]"

definition is_leap :: "nat \<Rightarrow> bool" where
  "is_leap y \<longleftrightarrow> y mod 4 = 0 \<and> (y mod 100 \<noteq> 0 \<or> y mod 400 = 0)"

definition days_in_month :: "nat \<Rightarrow> nat \<Rightarrow> nat" where
  "days_in_month y m =
     (if m = 2 then (if is_leap y then 29 else 28)
      else if m \<in> {4, 6, 9, 11} then 30 else 31)"

text \<open>The number (1 to 12) of the month whose name starts the text, case-insensitively.\<close>

fun month_number :: "string list \<Rightarrow> nat \<Rightarrow> string \<Rightarrow> nat option" where
  "month_number [] k t = None"
| "month_number (n # ns) k t =
     (if startswith (map ascii_lower t) (map ascii_lower n) then Some k
      else month_number ns (k + 1) t)"

definition strptime_ok :: "string \<Rightarrow> bool" where
  "strptime_ok text \<longleftrightarrow>
     rx_fullmatch strptime_format text \<and>
     (let t0 = dropWhile is_space text;
          d = py_int (takeWhile is_digit t0);
          t1 = dropWhile is_space (dropWhile is_digit t0);
          y = py_int (drop (length text - 4) text)
      in case month_number month_names 1 t1 of
           None \<Rightarrow> False
         | Some m \<Rightarrow> 1 \<le> y \<and> 1 \<le> d \<and> d \<le> days_in_month y m)"

definition date_invalid_issue :: "string \<Rightarrow> int \<Rightarrow> ValidationIssue" where
  "date_invalid_issue text i = ValidationIssue WARNING ''Date''
     (''Date format appears correct but may be invalid: '' @ text) (Some (i + 1))"

definition date_missing_issue :: ValidationIssue where
  "date_missing_issue = ValidationIssue CRITICAL ''Date''
     (''Missing or incorrectly formatted date. Expected format: 'DD Month YYYY' '' @
      ''(e.g., '12 March 2025')'') None"

text \<open>The loop over \<open>range(min(5, len(self.paragraphs)))\<close>: the list is the window, \<open>i\<close>
  the index of its head; the result is the flag \<open>found\<close> with the validator.\<close>

fun date_loop :: "string list \<Rightarrow> int \<Rightarrow> MemorandumValidator \<Rightarrow> bool \<times> MemorandumValidator" where
  "date_loop [] i self = (False, self)"
| "date_loop (p # ps) i self =
     (let text = strip p in
      if re_match_dollar date_pattern text then
        (True, if strptime_ok text then self else append_issue (date_invalid_issue text i) self)
      else date_loop ps (i + 1) self)"

definition validate_date :: "MemorandumValidator \<Rightarrow> MemorandumValidator" where
  "validate_date self =
     (if paragraphs self = [] then
        append_issue (ValidationIssue CRITICAL ''Date'' ''Document is empty'' None) self
      else
        (case date_loop (take 5 (paragraphs self)) 0 self of
           (found, self1) \<Rightarrow> if \<not> found then append_issue date_missing_issue self1 else self1))"

section \<open>Header checks\<close>

definition validate_memorandum_for :: "MemorandumValidator \<Rightarrow> MemorandumValidator" where
  "validate_memorandum_for self =
     (let idx = find_paragraph_index self (rx_lit_ci ''MEMORANDUM FOR'') 0 in
      if idx = -1 then
        append_issue (ValidationIssue CRITICAL ''Header''
          ''Missing 'MEMORANDUM FOR' line'' None) self
      else
        let text = get_text_by_index self idx in
        if \<not> startswith text ''MEMORANDUM FOR'' then
          append_issue (ValidationIssue WARNING ''Header''
            ([CHR 0x27] @ ''MEMORANDUM FOR'' @ [CHR 0x27] @ '' should be at the start of the line'')
            (Some (idx + 1))) self
        else self)"

definition from_pattern :: rx where  \<comment> \<open>\<^verbatim>\<open>^FROM:\s+.+\<close>\<close>
  "from_pattern = rx_seq [rx_lit ''FROM:'', rx_plus rx_space, rx_plus rx_dot]"

definition validate_from_line :: "MemorandumValidator \<Rightarrow> MemorandumValidator" where
  "validate_from_line self =
     (let idx = find_paragraph_index self (rx_lit_ci ''FROM:'') 0 in
      if idx = -1 then
        append_issue (ValidationIssue CRITICAL ''Header''
          ''Missing 'FROM:' line'' None) self
      else
        let text = get_text_by_index self idx in
        if \<not> re_match from_pattern text then
          append_issue (ValidationIssue WARNING ''Header''
            ''FROM: line should be followed by sender information'' (Some (idx + 1))) self
        else self)"

definition subject_pattern :: rx where  \<comment> \<open>\<^verbatim>\<open>^SUBJECT:\s+.+\<close>\<close>
  "subject_pattern = rx_seq [rx_lit ''SUBJECT:'', rx_plus rx_space, rx_plus rx_dot]"

definition validate_subject_line :: "MemorandumValidator \<Rightarrow> MemorandumValidator" where
  "validate_subject_line self =
     (let idx = find_paragraph_index self (rx_lit_ci ''SUBJECT:'') 0 in
      if idx = -1 then
        append_issue (ValidationIssue CRITICAL ''Header''
          ''Missing 'SUBJECT:' line'' None) self
      else
        let text = get_text_by_index self idx in
        if \<not> re_match subject_pattern text then
          append_issue (ValidationIssue WARNING ''Header''
            ''SUBJECT: line should be followed by subject text'' (Some (idx + 1))) self
        else self)"

section \<open>Body numbering check\<close>

definition paragraph_pattern :: rx where  \<comment> \<open>\<^verbatim>\<open>^(\d+)\.\s+\<close>\<close>
  "paragraph_pattern = rx_seq [rx_plus rx_digit, rx_lit ''.'', rx_plus rx_space]"

text \<open>
  The loop over \<open>range(subject_idx + 1, sig_idx)\<close> that fills \<open>found_paragraphs\<close>. Group 1
  of a match is the run of digits before the dot, which is all the digits the text starts
  with.
\<close>

fun collect_numbered :: "string list \<Rightarrow> int \<Rightarrow> (nat \<times> int) list" where
  "collect_numbered [] i = []"
| "collect_numbered (p # ps) i =
     (let text = strip p in
      if re_match paragraph_pattern text
      then (py_int (takeWhile is_digit text), i) # collect_numbered ps (i + 1)
      else collect_numbered ps (i + 1))"

definition numbering_issue :: "nat \<Rightarrow> nat \<Rightarrow> int \<Rightarrow> ValidationIssue" where
  "numbering_issue expected para_num para_idx = ValidationIssue WARNING ''Body''
     (''Paragraph numbering issue: Expected '' @ py_str expected @ '', found '' @ py_str para_num)
     (Some (para_idx + 1))"

text \<open>The loop over \<open>found_paragraphs\<close> with the variable \<open>expected\<close>.\<close>

fun check_sequence :: "nat \<Rightarrow> (nat \<times> int) list \<Rightarrow> MemorandumValidator \<Rightarrow> MemorandumValidator" where
  "check_sequence expected [] self = self"
| "check_sequence expected ((para_num, para_idx) # rest) self =
     check_sequence (para_num + 1) rest
       (if para_num \<noteq> expected
        then append_issue (numbering_issue expected para_num para_idx) self else self)"

definition body_missing_issue :: ValidationIssue where
  "body_missing_issue = ValidationIssue CRITICAL ''Body''
     ''No numbered paragraphs found. Body paragraphs should be numbered (1., 2., 3., etc.)'' None"

definition body_count_issue :: "nat \<Rightarrow> ValidationIssue" where
  "body_count_issue n = ValidationIssue INFO ''Body''
     (''Found '' @ py_str n @ '' numbered paragraph(s)'') None"

definition validate_body_paragraphs :: "MemorandumValidator \<Rightarrow> MemorandumValidator" where
  "validate_body_paragraphs self =
     (let subject_idx = find_paragraph_index self (rx_lit_ci ''SUBJECT:'') 0 in
      if subject_idx = -1 then self
      else
        let sig_idx0 = find_paragraph_index self (rx_lit_ci ''//SIGNED//'') subject_idx;
            sig_idx = (if sig_idx0 = -1 then int (length (paragraphs self)) else sig_idx0);
            found_paragraphs =
              collect_numbered
                (take (nat (sig_idx - (subject_idx + 1)))
                   (drop (nat (subject_idx + 1)) (paragraphs self)))
                (subject_idx + 1)
        in
        if found_paragraphs = [] then append_issue body_missing_issue self
        else append_issue (body_count_issue (length found_paragraphs))
               (check_sequence 1 found_paragraphs self))"

section \<open>Signature block check\<close>

definition rank_names :: "string list" where
  "rank_names = [''Colonel'', ''Lt Col'', ''Major'', ''Captain'', ''Lieutenant'', ''General'',
     ''Brig Gen'', ''Maj Gen'', ''Lt Gen'', ''Col'', ''Capt'', ''Lt'', ''Gen'']"

definition signature_pattern :: rx where
  \<comment> \<open>\<^verbatim>\<open>.+,\s*(?:Colonel|...|Gen),\s*(?:USAF|USSF)\<close>\<close>
  "signature_pattern = rx_seq [rx_plus rx_dot, rx_lit '','', RStar rx_space,
     rx_alts (map rx_lit rank_names), rx_lit '','', RStar rx_space,
     rx_alts (map rx_lit [''USAF'', ''USSF''])]"

text \<open>The loop over \<open>range(sig_idx + 1, min(sig_idx + 5, len(self.paragraphs)))\<close>, whose
  result is the flag \<open>name_found\<close>.\<close>

fun name_loop :: "string list \<Rightarrow> bool" where
  "name_loop [] = False"
| "name_loop (p # ps) = (if re_search signature_pattern (strip p) then True else name_loop ps)"

definition signature_missing_issue :: ValidationIssue where
  "signature_missing_issue = ValidationIssue CRITICAL ''Signature''
     ''Missing '//SIGNED//' marker in signature block'' None"

definition validate_signature_block :: "MemorandumValidator \<Rightarrow> MemorandumValidator" where
  "validate_signature_block self =
     (let sig_idx = find_paragraph_index self (rx_lit_ci ''//SIGNED//'') 0 in
      if sig_idx = -1 then append_issue signature_missing_issue self
      else
        let name_found = name_loop (take 4 (drop (nat (sig_idx + 1)) (paragraphs self))) in
        if \<not> name_found then
          append_issue (ValidationIssue WARNING ''Signature''
            (''Signature block may be incomplete. Expected format: '' @ [CHR 0x27] @
             ''Name, Rank, Branch'' @ [CHR 0x27]) (Some (sig_idx + 1))) self
        else self)"

section \<open>Attachments check\<close>

definition attachments_pattern :: rx where  \<comment> \<open>\<^verbatim>\<open>Attachments?:\<close> under \<open>re.IGNORECASE\<close>\<close>
  "attachments_pattern = rx_seq [rx_lit_ci ''Attachment'', rx_opt (rx_lit_ci ''s''), rx_lit_ci '':'']"

definition tab_pattern :: rx where  \<comment> \<open>\<^verbatim>\<open>Tab\s+\d+\<close>\<close>
  "tab_pattern = rx_seq [rx_lit ''Tab'', rx_plus rx_space, rx_plus rx_digit]"

text \<open>The loop over \<open>range(attach_idx + 1, len(self.paragraphs))\<close> that fills
  \<open>found_tabs\<close>, with its \<open>break\<close>.\<close>

fun collect_tabs :: "string list \<Rightarrow> string list" where
  "collect_tabs [] = []"
| "collect_tabs (p # ps) =
     (let text = strip p in
      if re_match tab_pattern text then text # collect_tabs ps
      else if text \<noteq> [] \<and> \<not> re_match tab_pattern text then []
      else collect_tabs ps)"

definition no_attachments_issue :: ValidationIssue where
  "no_attachments_issue =
     ValidationIssue INFO ''Attachments'' ''No attachments section found (optional)'' None"

definition tab_count_issue :: "nat \<Rightarrow> ValidationIssue" where
  "tab_count_issue n = ValidationIssue INFO ''Attachments''
     (''Found '' @ py_str n @ '' attachment tab(s)'') None"

definition validate_attachments :: "MemorandumValidator \<Rightarrow> MemorandumValidator" where
  "validate_attachments self =
     (let attach_idx = find_paragraph_index self attachments_pattern 0 in
      if attach_idx = -1 then append_issue no_attachments_issue self
      else
        let found_tabs = collect_tabs (drop (nat (attach_idx + 1)) (paragraphs self)) in
        if found_tabs = [] then
          append_issue (ValidationIssue WARNING ''Attachments''
            ''Attachments section found but no tabs listed'' (Some (attach_idx + 1))) self
        else append_issue (tab_count_issue (length found_tabs)) self)"

section \<open>Page margins check\<close>

text \<open>
  The margins are lengths in EMU, and \<open>Length.inches\<close> is the float division
  \<open>self / float(914400)\<close>. A Python float is a binary64 number; it is modelled by the
  rational number it denotes, and every operation rounds its exact result to the nearest
  such number, ties to the even significand (53 bits). Lengths are far from the overflow
  and underflow ranges of the format, which are left out.
\<close>

definition round_half_even :: "rat \<Rightarrow> int" where
  "round_half_even x =
     (let f = \<lfloor>x\<rfloor>; d = x - of_int f in
      if d < 1 / 2 then f else if 1 / 2 < d then f + 1 else if even f then f else f + 1)"

function bit_length :: "int \<Rightarrow> int" where
  "bit_length n = (if n \<le> 0 then 0 else 1 + bit_length (n div 2))"
  by pat_completeness auto
termination
  by (relation "measure nat") auto

declare bit_length.simps [simp del]

text \<open>The binary exponent \<open>e\<close> of a nonzero \<open>x\<close>: \<open>2 ^ e \<le> |x| < 2 ^ (e + 1)\<close>.\<close>

definition binary_exponent :: "rat \<Rightarrow> int" where
  "binary_exponent x =
     (case quotient_of \<bar>x\<bar> of (p, q) \<Rightarrow>
        let k = bit_length p - bit_length q in
        if 2 powi k \<le> \<bar>x\<bar> then k else k - 1)"

definition float_round :: "rat \<Rightarrow> rat" where
  "float_round x =
     (if x = 0 then 0
      else let ulp = 2 powi (binary_exponent x - 52) in
           of_int (round_half_even (x / ulp)) * ulp)"

text \<open>\<open>length.inches\<close>, for a length in EMU.\<close>

definition inches :: "int \<Rightarrow> rat" where
  "inches emu = float_round (float_round (of_int emu) / float_round 914400)"

text \<open>\<open>section.top_margin.inches if section.top_margin else 0\<close>: an absent length and
  the length 0 are both false.\<close>

definition margin_inches :: "int option \<Rightarrow> rat" where
  "margin_inches m = (case m of None \<Rightarrow> 0 | Some emu \<Rightarrow> if emu = 0 then 0 else inches emu)"

text \<open>\<open>abs(margin - 1.0) > 0.1\<close>\<close>

definition exceeds_tolerance :: "rat \<Rightarrow> bool" where
  "exceeds_tolerance margin \<longleftrightarrow> \<bar>float_round (margin - 1)\<bar> > float_round (1 / 10)"

text \<open>The f-string field \<open>{margin:.2f}\<close>: the decimal with two places nearest to the
  value.\<close>

definition format_2f :: "rat \<Rightarrow> string" where
  "format_2f v =
     (let n = nat (round_half_even (\<bar>v\<bar> * 100)) in
      (if v < 0 then ''-'' else []) @ py_str (n div 100) @ ''.'' @
      [digit_char (n div 10), digit_char n])"

definition margin_issue :: "string \<Rightarrow> rat \<Rightarrow> ValidationIssue" where
  "margin_issue side margin = ValidationIssue INFO ''Formatting''
     (side @ '' margin is '' @ format_2f margin @ '' inches (standard is 1.0 inch)'') None"

text \<open>Reading \<open>self.document.sections\<close> when no document is set raises; that is the
  \<open>Inl\<close> result, with the text of the exception.\<close>

definition validate_formatting :: "MemorandumValidator \<Rightarrow> string + MemorandumValidator" where
  "validate_formatting self =
     (if paragraphs self = [] then Inr self
      else
        case document self of
          None \<Rightarrow> Inl ([CHR 0x27] @ ''NoneType'' @ [CHR 0x27] @ '' object has no attribute '' @
                        [CHR 0x27] @ ''sections'' @ [CHR 0x27])
        | Some doc \<Rightarrow>
            (case doc_sections doc of
               [] \<Rightarrow> Inr self
             | sec # _ \<Rightarrow>
                 let top = margin_inches (top_margin sec);
                     bottom = margin_inches (bottom_margin sec);
                     left = margin_inches (left_margin sec);
                     right = margin_inches (right_margin sec);
                     self1 = (if exceeds_tolerance top
                              then append_issue (margin_issue ''Top'' top) self else self);
                     self2 = (if exceeds_tolerance left
                              then append_issue (margin_issue ''Left'' left) self1 else self1)
                 in Inr self2))"

section \<open>Entry point\<close>

text \<open>
  \<open>Document(file_path)\<close> belongs to the docx library and the file system: it is the
  parameter \<open>open_document\<close>, which gives the parsed document or the exception raised.
  Inside the checks, reading the paragraphs and margins of a parsed document does not
  raise.
\<close>

datatype load_result =
    Loaded Document
  | FileNotFoundError
  | OtherException string

definition file_issue :: "string \<Rightarrow> ValidationIssue" where
  "file_issue msg = ValidationIssue CRITICAL ''File'' msg None"

definition validate_file ::
  "(string \<Rightarrow> load_result) \<Rightarrow> MemorandumValidator \<Rightarrow> string
     \<Rightarrow> (bool \<times> ValidationIssue list) \<times> MemorandumValidator" where
  "validate_file open_document self0 file_path =
     (let self = self0\<lparr>issues := []\<rparr> in
      if \<not> endswith file_path ''.docx'' then
        (let self1 = append_issue (file_issue ''File must be a .docx document'') self
         in ((False, issues self1), self1))
      else
        case open_document file_path of
          FileNotFoundError \<Rightarrow>
            (let self1 = append_issue (file_issue (''File not found: '' @ file_path)) self
             in ((False, issues self1), self1))
        | OtherException e \<Rightarrow>
            (let self1 = append_issue (file_issue (''Error reading file: '' @ e)) self
             in ((False, issues self1), self1))
        | Loaded doc \<Rightarrow>
            (let self1 = self\<lparr>document := Some doc, paragraphs := doc_paragraphs doc\<rparr>;
                 self2 = validate_attachments (validate_signature_block
                           (validate_body_paragraphs (validate_subject_line
                             (validate_from_line (validate_memorandum_for
                               (validate_date self1))))))
             in case validate_formatting self2 of
                  Inl e \<Rightarrow>
                    (let self3 = append_issue (file_issue (''Error reading file: '' @ e)) self2
                     in ((False, issues self3), self3))
                | Inr self3 \<Rightarrow>
                    (let critical_issues = filter (\<lambda>i. severity i = CRITICAL) (issues self3);
                         passed = (length critical_issues = 0)
                     in ((passed, issues self3), self3))))"

section \<open>Validator states used in examples\<close>

text \<open>The state in which \<open>validate_file\<close> starts the checks on a parsed document, and a
  document that is only paragraphs.\<close>

definition loaded :: "Document \<Rightarrow> MemorandumValidator" where
  "loaded doc = \<lparr>issues = [], document = Some doc, paragraphs = doc_paragraphs doc\<rparr>"

definition text_document :: "string list \<Rightarrow> Document" where
  "text_document ps = \<lparr>doc_paragraphs = ps, doc_sections = []\<rparr>"

definition page_only_document :: Document where
  "page_only_document = \<lparr>doc_paragraphs = [], doc_sections =
     [\<lparr>top_margin = Some 457200, bottom_margin = None, left_margin = None, right_margin = None\<rparr>]\<rparr>"

text \<open>The seven checks that read the paragraphs, in the order \<open>validate_file\<close> runs them.\<close>

definition text_checks :: "MemorandumValidator \<Rightarrow> MemorandumValidator" where
  "text_checks self =
     validate_attachments (validate_signature_block (validate_body_paragraphs
       (validate_subject_line (validate_from_line (validate_memorandum_for
         (validate_date self))))))"

section \<open>The language of a pattern\<close>

text \<open>What the patterns mean, for the proofs: the set of texts a pattern matches in full.\<close>

definition conc :: "string set \<Rightarrow> string set \<Rightarrow> string set" where
  "conc A B = {u @ v | u v. u \<in> A \<and> v \<in> B}"

inductive_set star :: "string set \<Rightarrow> string set" for A :: "string set" where
  star_empty: "[] \<in> star A"
| star_more: "u \<in> A \<Longrightarrow> v \<in> star A \<Longrightarrow> u @ v \<in> star A"

primrec lang :: "rx \<Rightarrow> string set" where
  "lang RFail = {}"
| "lang REps = {[]}"
| "lang (RAtom p) = {[c] | c. p c}"
| "lang (RAlt r s) = lang r \<union> lang s"
| "lang (RSeq r s) = conc (lang r) (lang s)"
| "lang (RStar r) = star (lang r)"

section \<open>Descriptions used in the statements\<close>

text \<open>
  The warnings of the numbering walk, said without the loop: the expected numbers are the
  first one followed by each found number plus one, and a warning is due wherever the
  found number is not the expected one.
\<close>

definition numbering_warnings :: "nat \<Rightarrow> (nat \<times> int) list \<Rightarrow> ValidationIssue list" where
  "numbering_warnings first cands =
     map (\<lambda>(expected, para_num, para_idx). numbering_issue expected para_num para_idx)
       (filter (\<lambda>(expected, para_num, para_idx). para_num \<noteq> expected)
          (zip (first # map (\<lambda>c. fst c + 1) cands) cands))"

text \<open>The list \<open>found_paragraphs\<close> that the Body Numbering check builds once the Subject
  line is found.\<close>

definition found_paragraphs :: "MemorandumValidator \<Rightarrow> (nat \<times> int) list" where
  "found_paragraphs self =
     (let subject_idx = find_paragraph_index self (rx_lit_ci ''SUBJECT:'') 0;
          sig_idx0 = find_paragraph_index self (rx_lit_ci ''//SIGNED//'') subject_idx;
          sig_idx = (if sig_idx0 = -1 then int (length (paragraphs self)) else sig_idx0)
      in collect_numbered
           (take (nat (sig_idx - (subject_idx + 1)))
              (drop (nat (subject_idx + 1)) (paragraphs self)))
           (subject_idx + 1))"

text \<open>A paragraph the Date check accepts, and the shape of text that makes it one.\<close>

definition is_date_line :: "string \<Rightarrow> bool" where
  "is_date_line p \<longleftrightarrow> re_match_dollar date_pattern (strip p)"

definition date_shaped :: "string \<Rightarrow> bool" where
  "date_shaped t \<longleftrightarrow>
     (\<exists>d w1 m w2 y. t = d @ w1 @ m @ w2 @ y \<and>
        length d \<in> {1, 2} \<and> (\<forall>c\<in>set d. is_digit c) \<and>
        w1 \<noteq> [] \<and> (\<forall>c\<in>set w1. is_space c) \<and>
        m \<in> set month_names \<and>
        w2 \<noteq> [] \<and> (\<forall>c\<in>set w2. is_space c) \<and>
        length y = 4 \<and> (\<forall>c\<in>set y. is_digit c))"

text \<open>A text that starts with \<open>Tab\<close>, whitespace and digits.\<close>

definition is_tab_line :: "string \<Rightarrow> bool" where
  "is_tab_line text \<longleftrightarrow>
     (\<exists>w d v. text = ''Tab'' @ w @ d @ v \<and> w \<noteq> [] \<and> (\<forall>c\<in>set w. is_space c) \<and>
               d \<noteq> [] \<and> (\<forall>c\<in>set d. is_digit c))"

text \<open>
  The sentence of the specification about FROM: and SUBJECT:, word for word: somewhere in
  the text the anchor (in any letter case) is followed by whitespace and then by a
  character that is not whitespace.
\<close>

definition anchor_followed_by_content :: "string \<Rightarrow> string \<Rightarrow> bool" where
  "anchor_followed_by_content anchor text \<longleftrightarrow>
     re_search (rx_seq [rx_lit_ci anchor, rx_plus rx_space, RAtom (\<lambda>c. \<not> is_space c)]) text"

text \<open>What the two header checks test: the text starts with the exact anchor and
  a whitespace character comes next.\<close>

definition anchor_then_space :: "string \<Rightarrow> string \<Rightarrow> bool" where
  "anchor_then_space anchor text \<longleftrightarrow>
     startswith text anchor \<and> length anchor < length text \<and> is_space (text ! length anchor)"


section \<open>Example documents\<close>




definition february_memo :: MemorandumValidator where
  "february_memo = loaded (text_document [''DEPARTMENT OF THE AIR FORCE'', '' 31 February 2025 '',
     ''12 March 2025''])"

definition tabs_memo :: MemorandumValidator where
  "tabs_memo = loaded (text_document
     [''Commander'', ''Attachments:'', ''Tab 1'', '''', ''Tab 2'', ''Notes'', ''Tab 3''])"

definition headers_memo :: MemorandumValidator where
  "headers_memo = loaded (text_document [''FROM: AFROTC/CC'', ''SUBJECT:''])"

definition lower_case_memo :: MemorandumValidator where
  "lower_case_memo = loaded (text_document [''From: AFROTC/CC''])"

section \<open>Basic facts\<close>

lemma issues_append_issue [simp]: "issues (append_issue i self) = issues self @ [i]"
  by (simp add: append_issue_def)

lemma paragraphs_append_issue [simp]: "paragraphs (append_issue i self) = paragraphs self"
  by (simp add: append_issue_def)

lemma document_append_issue [simp]: "document (append_issue i self) = document self"
  by (simp add: append_issue_def)

lemma ValidationIssue_sel [simp]:
  "severity (ValidationIssue sev sec msg pn) = sev"
  "issue_section (ValidationIssue sev sec msg pn) = sec"
  "message (ValidationIssue sev sec msg pn) = msg"
  "paragraph_number (ValidationIssue sev sec msg pn) = pn"
  by (simp_all add: ValidationIssue_def)

lemma find_from_range:
  "find_from pat ps i = -1 \<or> (i \<le> find_from pat ps i \<and> find_from pat ps i < i + int (length ps))"
  by (induction ps arbitrary: i) (auto, force+)

lemma find_from_none_iff:
  "0 \<le> i \<Longrightarrow> find_from pat ps i = -1 \<longleftrightarrow> (\<forall>p\<in>set ps. \<not> re_search pat p)"
proof (induction ps arbitrary: i)
  case Nil
  then show ?case by simp
next
  case (Cons p ps)
  then show ?case by auto
qed

section \<open>The entry point\<close>

text \<open>
  C8. A file path that does not end in \<open>.docx\<close> gives the verdict failed with exactly one
  issue, a CRITICAL under "File". Nothing is parsed and no check runs: the result is the
  same whatever opening the document would give, and the document and paragraphs held by
  the validator are left as they were.
\<close>

theorem validate_file_wrong_extension:
  "\<not> endswith file_path ''.docx'' \<Longrightarrow>
   fst (validate_file open_document self file_path) =
     (False, [ValidationIssue CRITICAL ''File'' ''File must be a .docx document'' None]) \<and>
   document (snd (validate_file open_document self file_path)) = document self \<and>
   paragraphs (snd (validate_file open_document self file_path)) = paragraphs self"
  by (simp add: validate_file_def Let_def file_issue_def)

theorem validate_file_wrong_extension_witness:
  "\<not> endswith ''memo.doc'' ''.docx'' \<and>
   fst (validate_file (\<lambda>p. Loaded (text_document [])) (loaded (text_document [''12 March 2025'']))
         ''memo.doc'') =
     (False, [ValidationIssue CRITICAL ''File'' ''File must be a .docx document'' None])"
  using validate_file_wrong_extension [of "''memo.doc''" "\<lambda>p. Loaded (text_document [])"
    "loaded (text_document [''12 March 2025''])"]
  by (simp add: endswith_def)

lemma find_paragraph_index_none_iff:
  "find_paragraph_index self pat 0 = -1 \<longleftrightarrow> (\<forall>p\<in>set (paragraphs self). \<not> re_search pat p)"
  by (simp add: find_paragraph_index_def find_from_none_iff)


lemma find_paragraph_index_range:
  "find_paragraph_index self pat 0 \<noteq> -1 \<Longrightarrow>
   0 \<le> find_paragraph_index self pat 0 \<and>
   find_paragraph_index self pat 0 < int (length (paragraphs self))"
  using find_from_range [of pat "paragraphs self" 0]
  by (simp add: find_paragraph_index_def)

lemma find_paragraph_index_empty:
  "paragraphs self = [] \<Longrightarrow> find_paragraph_index self pat 0 = -1"
  by (simp add: find_paragraph_index_def)

lemma loaded_eq:
  "self\<lparr>issues := [], document := Some doc, paragraphs := doc_paragraphs doc\<rparr> = loaded doc"
  by (cases self) (simp add: loaded_def)

lemma validate_file_loaded:
  assumes "endswith file_path ''.docx''" and "open_document file_path = Loaded doc"
  shows "validate_file open_document self file_path =
    (case validate_formatting (text_checks (loaded doc)) of
       Inl e \<Rightarrow>
         ((False, issues (text_checks (loaded doc)) @ [file_issue (''Error reading file: '' @ e)]),
          append_issue (file_issue (''Error reading file: '' @ e)) (text_checks (loaded doc)))
     | Inr s \<Rightarrow> ((filter (\<lambda>i. severity i = CRITICAL) (issues s) = [], issues s), s))"
  unfolding validate_file_def Let_def text_checks_def using assms
  by (simp add: loaded_eq split: sum.splits)

text \<open>
  C1. Whatever the file path, the document behind it and the state of the validator, the
  verdict \<open>passed\<close> is true exactly when no returned issue has severity CRITICAL; issues of
  the other two severities have no part in it.
\<close>

theorem passed_iff_no_critical:
  "fst (fst (validate_file open_document self file_path)) \<longleftrightarrow>
   CRITICAL \<notin> severity ` set (snd (fst (validate_file open_document self file_path)))"
proof (cases "endswith file_path ''.docx''")
  case False
  then show ?thesis by (simp add: validate_file_def Let_def file_issue_def)
next
  case ext: True
  show ?thesis
  proof (cases "open_document file_path")
    case (Loaded doc)
    show ?thesis
      unfolding validate_file_loaded [of file_path open_document doc, OF ext Loaded]
      by (auto simp: file_issue_def filter_empty_conv image_iff split: sum.splits)
  next
    case FileNotFoundError
    with ext show ?thesis by (simp add: validate_file_def Let_def file_issue_def)
  next
    case (OtherException e)
    with ext show ?thesis by (simp add: validate_file_def Let_def file_issue_def)
  qed
qed

section \<open>The empty document\<close>

lemma empty_date:
  "paragraphs s = [] \<Longrightarrow> validate_date s =
     append_issue (ValidationIssue CRITICAL ''Date'' ''Document is empty'' None) s"
  by (simp add: validate_date_def)

lemma empty_memorandum_for:
  "paragraphs s = [] \<Longrightarrow> validate_memorandum_for s =
     append_issue (ValidationIssue CRITICAL ''Header'' ''Missing 'MEMORANDUM FOR' line'' None) s"
  by (simp add: validate_memorandum_for_def find_paragraph_index_empty)

lemma empty_from:
  "paragraphs s = [] \<Longrightarrow> validate_from_line s =
     append_issue (ValidationIssue CRITICAL ''Header'' ''Missing 'FROM:' line'' None) s"
  by (simp add: validate_from_line_def find_paragraph_index_empty)

lemma empty_subject:
  "paragraphs s = [] \<Longrightarrow> validate_subject_line s =
     append_issue (ValidationIssue CRITICAL ''Header'' ''Missing 'SUBJECT:' line'' None) s"
  by (simp add: validate_subject_line_def find_paragraph_index_empty)

lemma empty_body: "paragraphs s = [] \<Longrightarrow> validate_body_paragraphs s = s"
  by (simp add: validate_body_paragraphs_def find_paragraph_index_empty)

lemma empty_signature:
  "paragraphs s = [] \<Longrightarrow> validate_signature_block s = append_issue signature_missing_issue s"
  by (simp add: validate_signature_block_def find_paragraph_index_empty)

lemma empty_attachments:
  "paragraphs s = [] \<Longrightarrow> validate_attachments s = append_issue no_attachments_issue s"
  by (simp add: validate_attachments_def find_paragraph_index_empty)

lemma empty_formatting: "paragraphs s = [] \<Longrightarrow> validate_formatting s = Inr s"
  by (simp add: validate_formatting_def)

text \<open>
  C10. A document that parses to zero paragraphs gives exactly six issues, in this order:
  the CRITICAL "Document is empty" of the Date check, a CRITICAL for each of the three
  header anchors, the CRITICAL for the missing "//SIGNED//" marker and the INFO of the
  Attachments check; the verdict is failed. On a validator without paragraphs the Body
  Numbering check and the Page Margins check leave the state as it is.
\<close>

theorem empty_document_issues:
  assumes "endswith file_path ''.docx''"
    and "open_document file_path = Loaded doc"
    and "doc_paragraphs doc = []"
  shows "fst (validate_file open_document self file_path) =
     (False,
      [ValidationIssue CRITICAL ''Date'' ''Document is empty'' None,
       ValidationIssue CRITICAL ''Header'' ''Missing 'MEMORANDUM FOR' line'' None,
       ValidationIssue CRITICAL ''Header'' ''Missing 'FROM:' line'' None,
       ValidationIssue CRITICAL ''Header'' ''Missing 'SUBJECT:' line'' None,
       ValidationIssue CRITICAL ''Signature''
         ''Missing '//SIGNED//' marker in signature block'' None,
       ValidationIssue INFO ''Attachments'' ''No attachments section found (optional)'' None]) \<and>
     (\<forall>s. paragraphs s = [] \<longrightarrow>
        validate_body_paragraphs s = s \<and> validate_formatting s = Inr s)"
proof -
  have p: "paragraphs (loaded doc) = []" using assms(3) by (simp add: loaded_def)
  have i: "issues (loaded doc) = []" by (simp add: loaded_def)
  show ?thesis
    unfolding validate_file_loaded [of file_path open_document doc, OF assms(1,2)] text_checks_def
    by (simp add: p i empty_date empty_memorandum_for empty_from empty_subject empty_body
        empty_signature empty_attachments empty_formatting
        signature_missing_issue_def no_attachments_issue_def)
qed

theorem empty_document_issues_witness:
  "endswith ''memo.docx'' ''.docx'' \<and>
   fst (validate_file (\<lambda>p. Loaded page_only_document) (loaded (text_document [''x'']))
         ''memo.docx'') =
     (False,
      [ValidationIssue CRITICAL ''Date'' ''Document is empty'' None,
       ValidationIssue CRITICAL ''Header'' ''Missing 'MEMORANDUM FOR' line'' None,
       ValidationIssue CRITICAL ''Header'' ''Missing 'FROM:' line'' None,
       ValidationIssue CRITICAL ''Header'' ''Missing 'SUBJECT:' line'' None,
       ValidationIssue CRITICAL ''Signature''
         ''Missing '//SIGNED//' marker in signature block'' None,
       ValidationIssue INFO ''Attachments'' ''No attachments section found (optional)'' None])"
proof -
  have e: "endswith ''memo.docx'' ''.docx''" by (simp add: endswith_def)
  have p: "doc_paragraphs page_only_document = []" by (simp add: page_only_document_def)
  from empty_document_issues [of "''memo.docx''" "\<lambda>p. Loaded page_only_document"
      page_only_document "loaded (text_document [''x''])", OF e refl p] e
  show ?thesis by simp
qed

section \<open>Body numbering\<close>

lemma numbering_warnings_Nil [simp]: "numbering_warnings e [] = []"
  by (simp add: numbering_warnings_def)

lemma numbering_warnings_Cons [simp]:
  "numbering_warnings e ((n, idx) # rest) =
     (if n \<noteq> e then [numbering_issue e n idx] else []) @ numbering_warnings (n + 1) rest"
  by (simp add: numbering_warnings_def)


lemma check_sequence_paragraphs [simp]:
  "paragraphs (check_sequence e cands self) = paragraphs self"
  by (induction e cands self rule: check_sequence.induct) simp_all


text \<open>
  C9. When no paragraph contains the SUBJECT: anchor (in any letter case, anywhere in its
  text), the Body Numbering check returns the validator as it received it: no issue is
  added, neither a copy of the Subject check's CRITICAL nor "No numbered paragraphs found".
\<close>

theorem body_check_silent_without_subject:
  "\<forall>p\<in>set (paragraphs self). \<not> re_search (rx_lit_ci ''SUBJECT:'') p \<Longrightarrow>
   validate_body_paragraphs self = self \<and>
   issues (validate_body_paragraphs self) = issues self"
  by (simp add: validate_body_paragraphs_def find_paragraph_index_none_iff)

theorem body_check_silent_without_subject_witness:
  "list_all (\<lambda>p. \<not> re_search (rx_lit_ci ''SUBJECT:'') p)
     (paragraphs (loaded (text_document [''FROM: AFROTC/CC'', ''1. First'', ''//SIGNED//'']))) \<and>
   issues (validate_body_paragraphs
     (loaded (text_document [''FROM: AFROTC/CC'', ''1. First'', ''//SIGNED//'']))) = []"
proof -
  have h: "\<forall>p\<in>set (paragraphs
        (loaded (text_document [''FROM: AFROTC/CC'', ''1. First'', ''//SIGNED//'']))).
      \<not> re_search (rx_lit_ci ''SUBJECT:'') p"
    by code_simp
  from body_check_silent_without_subject [OF h] h show ?thesis
    by (simp add: loaded_def list_all_iff)
qed




section \<open>Matching and the language of a pattern\<close>

lemma conc_iff: "w \<in> conc A B \<longleftrightarrow> (\<exists>u v. w = u @ v \<and> u \<in> A \<and> v \<in> B)"
  by (auto simp: conc_def)

lemma nil_in_conc: "[] \<in> conc A B \<longleftrightarrow> [] \<in> A \<and> [] \<in> B"
  by (auto simp: conc_iff)

lemma cons_in_conc:
  "c # w \<in> conc A B \<longleftrightarrow>
     ([] \<in> A \<and> c # w \<in> B) \<or> (\<exists>u v. w = u @ v \<and> c # u \<in> A \<and> v \<in> B)"
proof
  assume "c # w \<in> conc A B"
  then obtain u v where uv: "c # w = u @ v" "u \<in> A" "v \<in> B" by (auto simp: conc_iff)
  show "([] \<in> A \<and> c # w \<in> B) \<or> (\<exists>u v. w = u @ v \<and> c # u \<in> A \<and> v \<in> B)"
  proof (cases u)
    case Nil
    with uv show ?thesis by simp
  next
    case (Cons a u')
    with uv show ?thesis by auto
  qed
next
  assume "([] \<in> A \<and> c # w \<in> B) \<or> (\<exists>u v. w = u @ v \<and> c # u \<in> A \<and> v \<in> B)"
  then show "c # w \<in> conc A B"
  proof
    assume "[] \<in> A \<and> c # w \<in> B"
    then have "[] @ (c # w) \<in> conc A B" unfolding conc_iff by blast
    then show ?thesis by simp
  next
    assume "\<exists>u v. w = u @ v \<and> c # u \<in> A \<and> v \<in> B"
    then obtain u v where "w = u @ v" "c # u \<in> A" "v \<in> B" by blast
    then have "(c # u) @ v \<in> conc A B" unfolding conc_iff by blast
    with \<open>w = u @ v\<close> show ?thesis by simp
  qed
qed

lemma cons_in_star:
  "c # w \<in> star A \<longleftrightarrow> (\<exists>u v. w = u @ v \<and> c # u \<in> A \<and> v \<in> star A)"
proof
  assume "c # w \<in> star A"
  then show "\<exists>u v. w = u @ v \<and> c # u \<in> A \<and> v \<in> star A"
  proof (induction "c # w" rule: star.induct)
    case (star_more u v)
    show ?case
    proof (cases u)
      case Nil
      with star_more show ?thesis by simp
    next
      case (Cons a u')
      with star_more show ?thesis by auto
    qed
  qed
next
  assume "\<exists>u v. w = u @ v \<and> c # u \<in> A \<and> v \<in> star A"
  then obtain u v where "w = u @ v" "c # u \<in> A" "v \<in> star A" by blast
  then have "(c # u) @ v \<in> star A" by (intro star_more)
  with \<open>w = u @ v\<close> show "c # w \<in> star A" by simp
qed

lemma nullable_iff: "nullable r \<longleftrightarrow> [] \<in> lang r"
  by (induction r) (auto simp: nil_in_conc intro: star_empty)

lemma lang_deriv: "w \<in> lang (deriv c r) \<longleftrightarrow> c # w \<in> lang r"
proof (induction r arbitrary: w)
  case (RSeq r s)
  then show ?case by (auto simp: cons_in_conc conc_iff [of w] nullable_iff)
next
  case (RStar r)
  then show ?case by (simp add: cons_in_star conc_iff [of w])
qed auto

lemma rx_fullmatch_iff: "rx_fullmatch r w \<longleftrightarrow> w \<in> lang r"
  by (induction w arbitrary: r) (simp_all add: nullable_iff lang_deriv)

lemma re_match_iff: "re_match r w \<longleftrightarrow> (\<exists>u v. w = u @ v \<and> u \<in> lang r)"
proof (induction w arbitrary: r)
  case Nil
  then show ?case by (simp add: nullable_iff)
next
  case (Cons c w)
  show ?case
  proof
    assume "re_match r (c # w)"
    then consider "[] \<in> lang r" | "re_match (deriv c r) w" by (auto simp: nullable_iff)
    then show "\<exists>u v. c # w = u @ v \<and> u \<in> lang r"
    proof cases
      case 1
      then have "c # w = [] @ (c # w) \<and> [] \<in> lang r" by simp
      then show ?thesis by blast
    next
      case 2
      then obtain u v where "w = u @ v" "u \<in> lang (deriv c r)" using Cons.IH by blast
      then have "c # w = (c # u) @ v \<and> c # u \<in> lang r" by (simp add: lang_deriv)
      then show ?thesis by blast
    qed
  next
    assume "\<exists>u v. c # w = u @ v \<and> u \<in> lang r"
    then obtain u v where uv: "c # w = u @ v" "u \<in> lang r" by blast
    show "re_match r (c # w)"
    proof (cases u)
      case Nil
      with uv have "[] \<in> lang r" by simp
      then show ?thesis by (simp add: nullable_iff)
    next
      case (Cons a u')
      with uv have "w = u' @ v" "u' \<in> lang (deriv c r)" by (auto simp: lang_deriv)
      then have "re_match (deriv c r) w" using Cons.IH by blast
      then show ?thesis by simp
    qed
  qed
qed

lemma re_search_iff: "re_search r w \<longleftrightarrow> (\<exists>p u v. w = p @ u @ v \<and> u \<in> lang r)"
proof (induction w)
  case Nil
  then show ?case by (simp add: nullable_iff)
next
  case (Cons c w)
  show ?case
  proof
    assume "re_search r (c # w)"
    then consider "re_match r (c # w)" | "re_search r w" by auto
    then show "\<exists>p u v. c # w = p @ u @ v \<and> u \<in> lang r"
    proof cases
      case 1
      then obtain u v where "c # w = u @ v" "u \<in> lang r" unfolding re_match_iff by blast
      then have "c # w = [] @ u @ v \<and> u \<in> lang r" by simp
      then show ?thesis by blast
    next
      case 2
      then obtain p u v where "w = p @ u @ v" "u \<in> lang r" using Cons.IH by blast
      then have "c # w = (c # p) @ u @ v \<and> u \<in> lang r" by simp
      then show ?thesis by blast
    qed
  next
    assume "\<exists>p u v. c # w = p @ u @ v \<and> u \<in> lang r"
    then obtain p u v where puv: "c # w = p @ u @ v" "u \<in> lang r" by blast
    show "re_search r (c # w)"
    proof (cases p)
      case Nil
      with puv have "re_match r (c # w)" unfolding re_match_iff by auto
      then show ?thesis by simp
    next
      case (Cons a p')
      with puv have "w = p' @ u @ v" by simp
      with puv(2) have "re_search r w" using Cons.IH by blast
      then show ?thesis by simp
    qed
  qed
qed

lemma conc_eps: "conc A {[]} = A"
  by (auto simp: conc_def)

lemma concI: "u \<in> A \<Longrightarrow> v \<in> B \<Longrightarrow> u @ v \<in> conc A B"
  by (auto simp: conc_def)

lemma concE: "w \<in> conc A B \<Longrightarrow> (\<And>u v. w = u @ v \<Longrightarrow> u \<in> A \<Longrightarrow> v \<in> B \<Longrightarrow> thesis) \<Longrightarrow> thesis"
  by (auto simp: conc_def)

lemma re_matchI: "u \<in> lang r \<Longrightarrow> re_match r (u @ v)"
  unfolding re_match_iff by (intro exI [of _ u] exI [of _ v]) simp

lemma re_matchE:
  "re_match r t \<Longrightarrow> (\<And>u v. t = u @ v \<Longrightarrow> u \<in> lang r \<Longrightarrow> thesis) \<Longrightarrow> thesis"
  unfolding re_match_iff by (elim exE conjE)

lemma re_searchI: "u \<in> lang r \<Longrightarrow> re_search r (p @ u @ v)"
  unfolding re_search_iff by (intro exI [of _ p] exI [of _ u] exI [of _ v]) simp

lemma atom_conc_iff:
  "w \<in> conc {[c] | c. p c} B \<longleftrightarrow> (\<exists>c v. w = c # v \<and> p c \<and> v \<in> B)"
proof
  assume "w \<in> conc {[c] | c. p c} B"
  then obtain u v where "w = u @ v" "u \<in> {[c] | c. p c}" "v \<in> B" unfolding conc_iff by blast
  then show "\<exists>c v. w = c # v \<and> p c \<and> v \<in> B" by auto
next
  assume "\<exists>c v. w = c # v \<and> p c \<and> v \<in> B"
  then obtain c v where "w = [c] @ v" "p c" "v \<in> B" by auto
  then show "w \<in> conc {[c] | c. p c} B" unfolding conc_iff by blast
qed

lemma lang_atom_seq:
  "t \<in> lang (rx_seq (map (\<lambda>c. RAtom (P c)) s)) \<longleftrightarrow> list_all2 P s t"
proof (induction s arbitrary: t)
  case Nil
  then show ?case by (simp add: rx_seq_def)
next
  case (Cons c s)
  have "t \<in> lang (rx_seq (map (\<lambda>c. RAtom (P c)) (c # s))) \<longleftrightarrow>
        t \<in> conc {[x] | x. P c x} (lang (rx_seq (map (\<lambda>c. RAtom (P c)) s)))"
    by (simp add: rx_seq_def)
  also have "\<dots> \<longleftrightarrow> (\<exists>x v. t = x # v \<and> P c x \<and> list_all2 P s v)"
    by (simp add: atom_conc_iff Cons.IH)
  also have "\<dots> \<longleftrightarrow> list_all2 P (c # s) t"
    by (auto simp: list_all2_Cons1)
  finally show ?case .
qed

lemma lang_rx_lit: "lang (rx_lit s) = {s}"
proof -
  have "t \<in> lang (rx_lit s) \<longleftrightarrow> t = s" for t
    unfolding rx_lit_def lang_atom_seq [of t "\<lambda>c x. x = c"]
    by (auto simp: list_all2_conv_all_nth list_eq_iff_nth_eq)
  then show ?thesis by auto
qed

lemma lang_rx_lit_ci: "t \<in> lang (rx_lit_ci s) \<longleftrightarrow> map ascii_lower t = map ascii_lower s"
  unfolding rx_lit_ci_def lang_atom_seq [of t "\<lambda>c x. ascii_lower x = ascii_lower c"]
  by (auto simp: list_all2_conv_all_nth list_eq_iff_nth_eq)

lemma star_atom: "w \<in> star {[c] | c. p c} \<longleftrightarrow> (\<forall>c\<in>set w. p c)"
proof
  assume "w \<in> star {[c] | c. p c}"
  then show "\<forall>c\<in>set w. p c" by (induction rule: star.induct) auto
next
  assume "\<forall>c\<in>set w. p c"
  then show "w \<in> star {[c] | c. p c}"
  proof (induction w)
    case Nil
    show ?case by (rule star_empty)
  next
    case (Cons a w)
    then have "[a] @ w \<in> star {[c] | c. p c}" by (intro star_more) auto
    then show ?case by simp
  qed
qed

lemma lang_plus_atom:
  "w \<in> lang (rx_plus (RAtom p)) \<longleftrightarrow> w \<noteq> [] \<and> (\<forall>c\<in>set w. p c)"
  by (cases w) (auto simp: rx_plus_def atom_conc_iff star_atom)

lemma lang_star_atom: "w \<in> lang (RStar (RAtom p)) \<longleftrightarrow> (\<forall>c\<in>set w. p c)"
  by (simp add: star_atom)

lemma rx_seq_Cons: "lang (rx_seq (r # rs)) = conc (lang r) (lang (rx_seq rs))"
  by (simp add: rx_seq_def)

lemma rx_seq_Nil: "lang (rx_seq []) = {[]}"
  by (simp add: rx_seq_def)

lemma strip_ends:
  "strip s = [] \<or> (\<not> is_space (hd (strip s)) \<and> \<not> is_space (last (strip s)))"
proof (cases "strip s = []")
  case True
  then show ?thesis by simp
next
  case False
  define m where "m = dropWhile is_space s"
  define k where "k = dropWhile is_space (rev m)"
  have sk: "strip s = rev k" by (simp add: strip_def k_def m_def)
  with False have k: "k \<noteq> []" by simp
  then have "\<not> is_space (hd k)" unfolding k_def by (rule hd_dropWhile)
  with k have a: "\<not> is_space (last (strip s))" by (simp add: sk last_rev)
  have m: "m \<noteq> []"
  proof
    assume "m = []"
    then have "k = []" by (simp add: k_def)
    with k show False by simp
  qed
  then have hm: "\<not> is_space (hd m)" unfolding m_def by (rule hd_dropWhile)
  have "rev m = takeWhile is_space (rev m) @ k" by (simp add: k_def)
  then have "rev (rev m) = rev (takeWhile is_space (rev m) @ k)" by simp
  then have "m = rev k @ rev (takeWhile is_space (rev m))" by simp
  with k have "hd m = hd (rev k)" by (metis hd_append2 rev_is_Nil_conv)
  with hm have "\<not> is_space (hd (strip s))" by (simp add: sk)
  with a show ?thesis by simp
qed

lemma strip_decomp: "\<exists>pre post. s = pre @ strip s @ post"
proof -
  define m where "m = dropWhile is_space s"
  define k where "k = dropWhile is_space (rev m)"
  have sk: "strip s = rev k" by (simp add: strip_def k_def m_def)
  have 1: "s = takeWhile is_space s @ m" by (simp add: m_def)
  have "rev m = takeWhile is_space (rev m) @ k" by (simp add: k_def)
  then have "rev (rev m) = rev (takeWhile is_space (rev m) @ k)" by simp
  then have "m = strip s @ rev (takeWhile is_space (rev m))" by (simp add: sk)
  with 1 have "s = takeWhile is_space s @ strip s @ rev (takeWhile is_space (rev m))" by simp
  then show ?thesis by blast
qed

lemma lang_rx_alts_lits: "lang (rx_alts (map rx_lit ms)) = set ms"
  by (induction ms) (simp_all add: rx_alts_def lang_rx_lit)

lemma lang_rx_opt: "lang (rx_opt r) = lang r \<union> {[]}"
  by (simp add: rx_opt_def)

lemma lang_rx_digit: "x \<in> lang rx_digit \<longleftrightarrow> (\<exists>c. x = [c] \<and> is_digit c)"
  by (auto simp: rx_digit_def)

lemma lang_plus_space: "w \<in> lang (rx_plus rx_space) \<longleftrightarrow> w \<noteq> [] \<and> (\<forall>c\<in>set w. is_space c)"
  by (simp add: rx_space_def lang_plus_atom)

lemma lang_star_space: "w \<in> lang (RStar rx_space) \<longleftrightarrow> (\<forall>c\<in>set w. is_space c)"
  by (simp add: rx_space_def star_atom)

lemma lit_plus_plus_lang:
  "u \<in> lang (rx_seq [rx_lit a, rx_plus (RAtom p), rx_plus (RAtom q)]) \<longleftrightarrow>
   (\<exists>w d. u = a @ w @ d \<and> w \<noteq> [] \<and> (\<forall>c\<in>set w. p c) \<and> d \<noteq> [] \<and> (\<forall>c\<in>set d. q c))"
proof -
  have l: "lang (rx_seq [rx_lit a, rx_plus (RAtom p), rx_plus (RAtom q)]) =
           conc {a} (conc (lang (rx_plus (RAtom p))) (lang (rx_plus (RAtom q))))"
    by (simp add: rx_seq_Cons rx_seq_Nil conc_eps lang_rx_lit)
  show ?thesis
  proof
    assume "u \<in> lang (rx_seq [rx_lit a, rx_plus (RAtom p), rx_plus (RAtom q)])"
    then have "u \<in> conc {a} (conc (lang (rx_plus (RAtom p))) (lang (rx_plus (RAtom q))))"
      by (simp only: l)
    then obtain x v where xv: "u = x @ v" "x \<in> {a}"
      and c: "v \<in> conc (lang (rx_plus (RAtom p))) (lang (rx_plus (RAtom q)))" by (rule concE)
    from c obtain w d where wd: "v = w @ d" "w \<in> lang (rx_plus (RAtom p))"
      "d \<in> lang (rx_plus (RAtom q))" by (rule concE)
    from wd(2) have w: "w \<noteq> [] \<and> (\<forall>c\<in>set w. p c)" by (simp add: lang_plus_atom)
    from wd(3) have d: "d \<noteq> [] \<and> (\<forall>c\<in>set d. q c)" by (simp add: lang_plus_atom)
    from xv wd have "u = a @ w @ d" by simp
    with w d show "\<exists>w d. u = a @ w @ d \<and> w \<noteq> [] \<and> (\<forall>c\<in>set w. p c) \<and>
           d \<noteq> [] \<and> (\<forall>c\<in>set d. q c)"
      by (intro exI [of _ w] exI [of _ d]) simp
  next
    assume "\<exists>w d. u = a @ w @ d \<and> w \<noteq> [] \<and> (\<forall>c\<in>set w. p c) \<and> d \<noteq> [] \<and> (\<forall>c\<in>set d. q c)"
    then obtain w d where h: "u = a @ w @ d" "w \<noteq> [] \<and> (\<forall>c\<in>set w. p c)"
      "d \<noteq> [] \<and> (\<forall>c\<in>set d. q c)" by (elim exE conjE) simp
    from h(2) have w: "w \<in> lang (rx_plus (RAtom p))" by (simp add: lang_plus_atom)
    from h(3) have d: "d \<in> lang (rx_plus (RAtom q))" by (simp add: lang_plus_atom)
    have "a @ (w @ d) \<in> conc {a} (conc (lang (rx_plus (RAtom p))) (lang (rx_plus (RAtom q))))"
      by (intro concI w d) simp
    with h(1) show "u \<in> lang (rx_seq [rx_lit a, rx_plus (RAtom p), rx_plus (RAtom q)])"
      by (simp only: l)
  qed
qed

lemma lit_plus_plus_match:
  "re_match (rx_seq [rx_lit a, rx_plus (RAtom p), rx_plus (RAtom q)]) t \<longleftrightarrow>
   (\<exists>w d v. t = a @ w @ d @ v \<and> w \<noteq> [] \<and> (\<forall>c\<in>set w. p c) \<and> d \<noteq> [] \<and> (\<forall>c\<in>set d. q c))"
proof
  assume "re_match (rx_seq [rx_lit a, rx_plus (RAtom p), rx_plus (RAtom q)]) t"
  then obtain u v where uv: "t = u @ v"
    "u \<in> lang (rx_seq [rx_lit a, rx_plus (RAtom p), rx_plus (RAtom q)])"
    by (rule re_matchE)
  from uv(2) obtain w d where wd: "u = a @ w @ d" "w \<noteq> []" "\<forall>c\<in>set w. p c"
    "d \<noteq> []" "\<forall>c\<in>set d. q c"
    unfolding lit_plus_plus_lang by (elim exE conjE)
  from uv(1) wd(1) have "t = a @ w @ d @ v" by simp
  with wd show "\<exists>w d v. t = a @ w @ d @ v \<and> w \<noteq> [] \<and> (\<forall>c\<in>set w. p c) \<and>
             d \<noteq> [] \<and> (\<forall>c\<in>set d. q c)"
    by (intro exI [of _ w] exI [of _ d] exI [of _ v]) simp
next
  assume "\<exists>w d v. t = a @ w @ d @ v \<and> w \<noteq> [] \<and> (\<forall>c\<in>set w. p c) \<and>
             d \<noteq> [] \<and> (\<forall>c\<in>set d. q c)"
  then obtain w d v where h: "t = a @ w @ d @ v" "w \<noteq> []" "\<forall>c\<in>set w. p c"
    "d \<noteq> []" "\<forall>c\<in>set d. q c" by (elim exE conjE)
  have "a @ w @ d \<in> lang (rx_seq [rx_lit a, rx_plus (RAtom p), rx_plus (RAtom q)])"
    unfolding lit_plus_plus_lang using h(2-5)
    by (intro exI [of _ w] exI [of _ d]) simp
  then have "re_match (rx_seq [rx_lit a, rx_plus (RAtom p), rx_plus (RAtom q)]) ((a @ w @ d) @ v)"
    by (rule re_matchI)
  with h(1) show "re_match (rx_seq [rx_lit a, rx_plus (RAtom p), rx_plus (RAtom q)]) t" by simp
qed

section \<open>The header checks\<close>

lemma header_pattern_match_stripped:
  "re_match (rx_seq [rx_lit a, rx_plus rx_space, rx_plus rx_dot]) (strip p) \<longleftrightarrow>
   (\<exists>c r. strip p = a @ c # r \<and> is_space c)"
proof
  assume "re_match (rx_seq [rx_lit a, rx_plus rx_space, rx_plus rx_dot]) (strip p)"
  then obtain w d v where h: "strip p = a @ w @ d @ v" "w \<noteq> []" "\<forall>c\<in>set w. is_space c"
    unfolding rx_space_def rx_dot_def lit_plus_plus_match by (elim exE conjE)
  from h(2) obtain c w' where w: "w = c # w'" by (cases w) auto
  with h have "strip p = a @ c # (w' @ d @ v) \<and> is_space c" by simp
  then show "\<exists>c r. strip p = a @ c # r \<and> is_space c"
    by (intro exI [of _ c] exI [of _ "w' @ d @ v"])
next
  assume "\<exists>c r. strip p = a @ c # r \<and> is_space c"
  then obtain c r where h: "strip p = a @ c # r" "is_space c" by (elim exE conjE)
  then have ne: "strip p \<noteq> []" by simp
  with strip_ends [of p] have l: "\<not> is_space (last (strip p))" by simp
  have r: "r \<noteq> []"
  proof
    assume "r = []"
    with h(1) have "last (strip p) = c" by simp
    with l h(2) show False by simp
  qed
  with h(1) have "last (strip p) = last r" by simp
  with l have lr: "\<not> is_space (last r)" by simp
  define w where "w = c # takeWhile is_space r"
  define rest where "rest = dropWhile is_space r"
  have rest: "rest \<noteq> []"
  proof
    assume "rest = []"
    then have "\<forall>z\<in>set r. is_space z" by (simp add: rest_def dropWhile_eq_Nil_conv)
    with r have "is_space (last r)" by simp
    with lr show False by simp
  qed
  then obtain x v where xv: "rest = x # v" by (cases rest) auto
  from rest have "\<not> is_space (hd rest)" unfolding rest_def by (rule hd_dropWhile)
  with xv have "\<not> is_space x" by simp
  then have nl: "not_newline x" by (auto simp: is_space_def not_newline_def)
  have "r = takeWhile is_space r @ rest" by (simp add: rest_def)
  with xv have "r = takeWhile is_space r @ x # v" by simp
  then have "a @ c # r = a @ w @ [x] @ v" by (simp add: w_def)
  with h(1) have t: "strip p = a @ w @ [x] @ v" by simp
  have ws: "\<forall>z\<in>set w. is_space z" using h(2) by (auto simp: w_def dest: set_takeWhileD)
  have wn: "w \<noteq> []" by (simp add: w_def)
  show "re_match (rx_seq [rx_lit a, rx_plus rx_space, rx_plus rx_dot]) (strip p)"
    unfolding rx_space_def rx_dot_def lit_plus_plus_match using t ws wn nl
    by (intro exI [of _ w] exI [of _ "[x]"] exI [of _ v]) simp
qed

lemma anchor_then_space_iff:
  "anchor_then_space a t \<longleftrightarrow> (\<exists>c r. t = a @ c # r \<and> is_space c)"
proof
  assume h: "anchor_then_space a t"
  then have 1: "take (length a) t = a" and 2: "length a < length t"
    and 3: "is_space (t ! length a)"
    by (simp_all add: anchor_then_space_def startswith_def)
  have "t = take (length a) t @ drop (length a) t" by simp
  also from 2 have "drop (length a) t = t ! length a # drop (Suc (length a)) t"
    by (simp add: Cons_nth_drop_Suc)
  finally have "t = a @ t ! length a # drop (Suc (length a)) t" using 1 by simp
  with 3 show "\<exists>c r. t = a @ c # r \<and> is_space c"
    by (intro exI [of _ "t ! length a"] exI [of _ "drop (Suc (length a)) t"]) simp
next
  assume "\<exists>c r. t = a @ c # r \<and> is_space c"
  then obtain c r where "t = a @ c # r" "is_space c" by (elim exE conjE)
  then show "anchor_then_space a t"
    by (simp add: anchor_then_space_def startswith_def)
qed

lemma header_pattern_match_anchor:
  "re_match (rx_seq [rx_lit a, rx_plus rx_space, rx_plus rx_dot]) (strip p) \<longleftrightarrow>
   anchor_then_space a (strip p)"
  by (simp only: header_pattern_match_stripped anchor_then_space_iff)

lemma content_pattern_lang:
  assumes "w \<noteq> []" "\<forall>c\<in>set w. is_space c" "\<not> is_space x"
  shows "a @ w @ [x] \<in> lang (rx_seq [rx_lit_ci a, rx_plus rx_space, RAtom (\<lambda>c. \<not> is_space c)])"
proof -
  have 1: "a \<in> lang (rx_lit_ci a)" by (simp add: lang_rx_lit_ci)
  have 2: "w \<in> lang (rx_plus rx_space)" using assms(1,2) by (simp add: rx_space_def lang_plus_atom)
  have 3: "[x] \<in> lang (RAtom (\<lambda>c. \<not> is_space c))" using assms(3) by simp
  have "a @ (w @ ([x] @ [])) \<in> conc (lang (rx_lit_ci a))
          (conc (lang (rx_plus rx_space)) (conc (lang (RAtom (\<lambda>c. \<not> is_space c))) {[]}))"
    by (intro concI 1 2 3) simp
  then show ?thesis by (simp add: rx_seq_Cons rx_seq_Nil)
qed

lemma anchor_then_space_has_content:
  assumes "anchor_then_space a (strip p)"
  shows "anchor_followed_by_content a p"
proof -
  from assms obtain c r where h: "strip p = a @ c # r" "is_space c"
    unfolding anchor_then_space_iff by (elim exE conjE)
  then have ne: "strip p \<noteq> []" by simp
  with strip_ends [of p] have l: "\<not> is_space (last (strip p))" by simp
  have r: "r \<noteq> []"
  proof
    assume "r = []"
    with h(1) have "last (strip p) = c" by simp
    with l h(2) show False by simp
  qed
  with h(1) have "last (strip p) = last r" by simp
  with l have lr: "\<not> is_space (last r)" by simp
  define w where "w = c # takeWhile is_space r"
  define rest where "rest = dropWhile is_space r"
  have rest: "rest \<noteq> []"
  proof
    assume "rest = []"
    then have "\<forall>z\<in>set r. is_space z" by (simp add: rest_def dropWhile_eq_Nil_conv)
    with r have "is_space (last r)" by simp
    with lr show False by simp
  qed
  then obtain x v where xv: "rest = x # v" by (cases rest) auto
  from rest have "\<not> is_space (hd rest)" unfolding rest_def by (rule hd_dropWhile)
  with xv have x: "\<not> is_space x" by simp
  have "r = takeWhile is_space r @ rest" by (simp add: rest_def)
  with xv have "r = takeWhile is_space r @ x # v" by simp
  then have "a @ c # r = (a @ w @ [x]) @ v" by (simp add: w_def)
  with h(1) have t: "strip p = (a @ w @ [x]) @ v" by simp
  have ws: "\<forall>z\<in>set w. is_space z" using h(2) by (auto simp: w_def dest: set_takeWhileD)
  have wn: "w \<noteq> []" by (simp add: w_def)
  obtain pre post where "p = pre @ strip p @ post" using strip_decomp [of p] by (elim exE)
  with t have p: "p = pre @ (a @ w @ [x]) @ (v @ post)" by simp
  have "re_search (rx_seq [rx_lit_ci a, rx_plus rx_space, RAtom (\<lambda>c. \<not> is_space c)])
          (pre @ (a @ w @ [x]) @ (v @ post))"
    by (intro re_searchI content_pattern_lang wn ws x)
  with p show ?thesis by (simp only: anchor_followed_by_content_def)
qed

lemma from_line_issues:
  assumes "find_paragraph_index self (rx_lit_ci ''FROM:'') 0 = idx" and "idx \<noteq> -1"
  shows "issues (validate_from_line self) = issues self @
    (if anchor_then_space ''FROM:'' (strip (paragraphs self ! nat idx)) then []
     else [ValidationIssue WARNING ''Header''
             ''FROM: line should be followed by sender information'' (Some (idx + 1))])"
proof -
  from find_paragraph_index_range [of self "rx_lit_ci ''FROM:''"] assms
  have r: "0 \<le> idx" "idx < int (length (paragraphs self))" by auto
  then have t: "get_text_by_index self idx = strip (paragraphs self ! nat idx)"
    by (simp add: get_text_by_index_def)
  show ?thesis
    unfolding validate_from_line_def assms(1) Let_def t from_pattern_def
      header_pattern_match_anchor
    using assms(2) by simp
qed

lemma subject_line_issues:
  assumes "find_paragraph_index self (rx_lit_ci ''SUBJECT:'') 0 = idx" and "idx \<noteq> -1"
  shows "issues (validate_subject_line self) = issues self @
    (if anchor_then_space ''SUBJECT:'' (strip (paragraphs self ! nat idx)) then []
     else [ValidationIssue WARNING ''Header''
             ''SUBJECT: line should be followed by subject text'' (Some (idx + 1))])"
proof -
  from find_paragraph_index_range [of self "rx_lit_ci ''SUBJECT:''"] assms
  have r: "0 \<le> idx" "idx < int (length (paragraphs self))" by auto
  then have t: "get_text_by_index self idx = strip (paragraphs self ! nat idx)"
    by (simp add: get_text_by_index_def)
  show ?thesis
    unfolding validate_subject_line_def assms(1) Let_def t subject_pattern_def
      header_pattern_match_anchor
    using assms(2) by simp
qed

text \<open>
  C6, as the specification words it, fails. In the one-paragraph document "From: AFROTC/CC"
  the FROM: anchor is located (the locator ignores letter case) and sender information
  follows it after a space, yet the check raises its WARNING.
\<close>

theorem header_content_warning_counterexample:
  "find_paragraph_index lower_case_memo (rx_lit_ci ''FROM:'') 0 = 0 \<and>
   anchor_followed_by_content ''FROM:'' (paragraphs lower_case_memo ! 0) \<and>
   issues (validate_from_line lower_case_memo) =
     [ValidationIssue WARNING ''Header''
        ''FROM: line should be followed by sender information'' (Some 1)]"
  by code_simp

text \<open>
  C6, amended. When the FROM: (respectively SUBJECT:) anchor is located, the check adds
  nothing if the trimmed text of that paragraph starts with the exact upper-case anchor
  followed by a whitespace character, and adds exactly its one WARNING, with the
  paragraph's number, otherwise. In the first case content does follow the anchor; so a
  located anchor without content after it always raises the WARNING, and an anchor that
  is written in another letter case or does not start the line raises it as well.
\<close>

theorem header_content_warning:
  "(find_paragraph_index self (rx_lit_ci ''FROM:'') 0 = from_idx \<and> from_idx \<noteq> -1 \<longrightarrow>
      issues (validate_from_line self) = issues self @
        (if anchor_then_space ''FROM:'' (strip (paragraphs self ! nat from_idx)) then []
         else [ValidationIssue WARNING ''Header''
                 ''FROM: line should be followed by sender information''
                 (Some (from_idx + 1))])) \<and>
   (find_paragraph_index self (rx_lit_ci ''SUBJECT:'') 0 = subject_idx \<and> subject_idx \<noteq> -1 \<longrightarrow>
      issues (validate_subject_line self) = issues self @
        (if anchor_then_space ''SUBJECT:'' (strip (paragraphs self ! nat subject_idx)) then []
         else [ValidationIssue WARNING ''Header''
                 ''SUBJECT: line should be followed by subject text''
                 (Some (subject_idx + 1))])) \<and>
   (anchor_then_space anchor (strip p) \<longrightarrow> anchor_followed_by_content anchor p)"
proof (intro conjI impI)
  assume "find_paragraph_index self (rx_lit_ci ''FROM:'') 0 = from_idx \<and> from_idx \<noteq> -1"
  then show "issues (validate_from_line self) = issues self @
        (if anchor_then_space ''FROM:'' (strip (paragraphs self ! nat from_idx)) then []
         else [ValidationIssue WARNING ''Header''
                 ''FROM: line should be followed by sender information''
                 (Some (from_idx + 1))])"
    using from_line_issues [of self from_idx] by simp
next
  assume "find_paragraph_index self (rx_lit_ci ''SUBJECT:'') 0 = subject_idx \<and> subject_idx \<noteq> -1"
  then show "issues (validate_subject_line self) = issues self @
        (if anchor_then_space ''SUBJECT:'' (strip (paragraphs self ! nat subject_idx)) then []
         else [ValidationIssue WARNING ''Header''
                 ''SUBJECT: line should be followed by subject text''
                 (Some (subject_idx + 1))])"
    using subject_line_issues [of self subject_idx] by simp
next
  assume "anchor_then_space anchor (strip p)"
  then show "anchor_followed_by_content anchor p" by (rule anchor_then_space_has_content)
qed

theorem header_content_warning_witness:
  "find_paragraph_index headers_memo (rx_lit_ci ''FROM:'') 0 = 0 \<and>
   find_paragraph_index headers_memo (rx_lit_ci ''SUBJECT:'') 0 = 1 \<and>
   anchor_then_space ''FROM:'' (strip ''FROM: AFROTC/CC'') \<and>
   anchor_followed_by_content ''FROM:'' ''FROM: AFROTC/CC'' \<and>
   issues (validate_from_line headers_memo) = [] \<and>
   issues (validate_subject_line headers_memo) =
     [ValidationIssue WARNING ''Header''
        ''SUBJECT: line should be followed by subject text'' (Some 2)]"
proof -
  have f: "find_paragraph_index headers_memo (rx_lit_ci ''FROM:'') 0 = 0" by code_simp
  have s: "find_paragraph_index headers_memo (rx_lit_ci ''SUBJECT:'') 0 = 1" by code_simp
  have i: "issues headers_memo = []" by (simp add: headers_memo_def loaded_def)
  have p: "paragraphs headers_memo ! nat 0 = ''FROM: AFROTC/CC''"
    "paragraphs headers_memo ! nat 1 = ''SUBJECT:''"
    by (simp_all add: headers_memo_def loaded_def text_document_def)
  have a: "anchor_then_space ''FROM:'' (strip ''FROM: AFROTC/CC'')" by code_simp
  have b: "\<not> anchor_then_space ''SUBJECT:'' (strip ''SUBJECT:'')" by code_simp
  from header_content_warning [of headers_memo 0 1 "''FROM:''" "''FROM: AFROTC/CC''"]
    f s i p a b
  show ?thesis by simp
qed

section \<open>The numbering walk\<close>






section \<open>The date check\<close>

lemma date_pattern_lang_unfold:
  "lang date_pattern =
     conc (lang rx_digit) (conc (lang rx_digit \<union> {[]}) (conc (lang (rx_plus rx_space))
       (conc (set month_names) (conc (lang (rx_plus rx_space))
         (conc (lang rx_digit) (conc (lang rx_digit) (conc (lang rx_digit)
           (conc (lang rx_digit) (lang (RStar rx_space))))))))))"
  by (simp only: date_pattern_def rx_seq_Cons rx_seq_Nil conc_eps lang_rx_alts_lits lang_rx_opt)

lemma date_pattern_lang:
  "u \<in> lang date_pattern \<longleftrightarrow>
     (\<exists>t w3. u = t @ w3 \<and> date_shaped t \<and> (\<forall>c\<in>set w3. is_space c))"
proof
  assume "u \<in> lang date_pattern"
  then have "u \<in> conc (lang rx_digit) (conc (lang rx_digit \<union> {[]}) (conc (lang (rx_plus rx_space))
       (conc (set month_names) (conc (lang (rx_plus rx_space))
         (conc (lang rx_digit) (conc (lang rx_digit) (conc (lang rx_digit)
           (conc (lang rx_digit) (lang (RStar rx_space))))))))))"
    by (simp only: date_pattern_lang_unfold)
  then obtain d1 v1 where 1: "u = d1 @ v1" "d1 \<in> lang rx_digit"
    and c1: "v1 \<in> conc (lang rx_digit \<union> {[]}) (conc (lang (rx_plus rx_space))
       (conc (set month_names) (conc (lang (rx_plus rx_space))
         (conc (lang rx_digit) (conc (lang rx_digit) (conc (lang rx_digit)
           (conc (lang rx_digit) (lang (RStar rx_space)))))))))" by (rule concE)
  from c1 obtain d2 v2 where 2: "v1 = d2 @ v2" "d2 \<in> lang rx_digit \<union> {[]}"
    and c2: "v2 \<in> conc (lang (rx_plus rx_space))
       (conc (set month_names) (conc (lang (rx_plus rx_space))
         (conc (lang rx_digit) (conc (lang rx_digit) (conc (lang rx_digit)
           (conc (lang rx_digit) (lang (RStar rx_space))))))))" by (rule concE)
  from c2 obtain w1 v3 where 3: "v2 = w1 @ v3" "w1 \<in> lang (rx_plus rx_space)"
    and c3: "v3 \<in> conc (set month_names) (conc (lang (rx_plus rx_space))
         (conc (lang rx_digit) (conc (lang rx_digit) (conc (lang rx_digit)
           (conc (lang rx_digit) (lang (RStar rx_space)))))))" by (rule concE)
  from c3 obtain m v4 where 4: "v3 = m @ v4" "m \<in> set month_names"
    and c4: "v4 \<in> conc (lang (rx_plus rx_space))
         (conc (lang rx_digit) (conc (lang rx_digit) (conc (lang rx_digit)
           (conc (lang rx_digit) (lang (RStar rx_space))))))" by (rule concE)
  from c4 obtain w2 v5 where 5: "v4 = w2 @ v5" "w2 \<in> lang (rx_plus rx_space)"
    and c5: "v5 \<in> conc (lang rx_digit) (conc (lang rx_digit) (conc (lang rx_digit)
           (conc (lang rx_digit) (lang (RStar rx_space)))))" by (rule concE)
  from c5 obtain y1 v6 where 6: "v5 = y1 @ v6" "y1 \<in> lang rx_digit"
    and c6: "v6 \<in> conc (lang rx_digit) (conc (lang rx_digit)
           (conc (lang rx_digit) (lang (RStar rx_space))))" by (rule concE)
  from c6 obtain y2 v7 where 7: "v6 = y2 @ v7" "y2 \<in> lang rx_digit"
    and c7: "v7 \<in> conc (lang rx_digit) (conc (lang rx_digit) (lang (RStar rx_space)))"
    by (rule concE)
  from c7 obtain y3 v8 where 8: "v7 = y3 @ v8" "y3 \<in> lang rx_digit"
    and c8: "v8 \<in> conc (lang rx_digit) (lang (RStar rx_space))" by (rule concE)
  from c8 obtain y4 w3 where 9: "v8 = y4 @ w3" "y4 \<in> lang rx_digit"
    and w3: "w3 \<in> lang (RStar rx_space)" by (rule concE)
  from 1(2) 2(2) have d: "length (d1 @ d2) \<in> {1, 2} \<and> (\<forall>c\<in>set (d1 @ d2). is_digit c)"
    by (auto simp: lang_rx_digit)
  from 6(2) 7(2) 8(2) 9(2)
  have y: "length (y1 @ y2 @ y3 @ y4) = 4 \<and> (\<forall>c\<in>set (y1 @ y2 @ y3 @ y4). is_digit c)"
    by (auto simp: lang_rx_digit)
  from 3(2) have w1: "w1 \<noteq> [] \<and> (\<forall>c\<in>set w1. is_space c)" by (simp add: lang_plus_space)
  from 5(2) have w2: "w2 \<noteq> [] \<and> (\<forall>c\<in>set w2. is_space c)" by (simp add: lang_plus_space)
  have "date_shaped ((d1 @ d2) @ w1 @ m @ w2 @ (y1 @ y2 @ y3 @ y4))"
    unfolding date_shaped_def using d w1 w2 y 4(2)
    by (intro exI [of _ "d1 @ d2"] exI [of _ w1] exI [of _ m] exI [of _ w2]
        exI [of _ "y1 @ y2 @ y3 @ y4"]) simp
  moreover have "u = ((d1 @ d2) @ w1 @ m @ w2 @ (y1 @ y2 @ y3 @ y4)) @ w3"
    by (simp add: 1 2 3 4 5 6 7 8 9)
  moreover from w3 have "\<forall>c\<in>set w3. is_space c" by (simp only: lang_star_space)
  ultimately show "\<exists>t w3. u = t @ w3 \<and> date_shaped t \<and> (\<forall>c\<in>set w3. is_space c)"
    by (intro exI [of _ "(d1 @ d2) @ w1 @ m @ w2 @ (y1 @ y2 @ y3 @ y4)"] exI [of _ w3]) simp
next
  assume "\<exists>t w3. u = t @ w3 \<and> date_shaped t \<and> (\<forall>c\<in>set w3. is_space c)"
  then obtain t w3 where u: "u = t @ w3" and t: "date_shaped t"
    and w3: "\<forall>c\<in>set w3. is_space c" by (elim exE conjE)
  from t obtain d w1 m w2 y where s: "t = d @ w1 @ m @ w2 @ y"
    and d: "length d \<in> {1, 2}" "\<forall>c\<in>set d. is_digit c"
    and w1: "w1 \<noteq> []" "\<forall>c\<in>set w1. is_space c"
    and m: "m \<in> set month_names"
    and w2: "w2 \<noteq> []" "\<forall>c\<in>set w2. is_space c"
    and y: "length y = 4" "\<forall>c\<in>set y. is_digit c"
    unfolding date_shaped_def by (elim exE conjE)
  from d obtain c1 d2 where dd: "d = [c1] @ d2" "[c1] \<in> lang rx_digit" "d2 \<in> lang rx_digit \<union> {[]}"
    by (cases d; cases "tl d") (auto simp: lang_rx_digit)
  from y obtain a b c e where yy: "y = [a] @ [b] @ [c] @ [e]"
    "[a] \<in> lang rx_digit" "[b] \<in> lang rx_digit" "[c] \<in> lang rx_digit" "[e] \<in> lang rx_digit"
    by (auto simp: length_Suc_conv numeral_eq_Suc lang_rx_digit)
  have "[c1] @ d2 @ w1 @ m @ w2 @ [a] @ [b] @ [c] @ [e] @ w3 \<in>
     conc (lang rx_digit) (conc (lang rx_digit \<union> {[]}) (conc (lang (rx_plus rx_space))
       (conc (set month_names) (conc (lang (rx_plus rx_space))
         (conc (lang rx_digit) (conc (lang rx_digit) (conc (lang rx_digit)
           (conc (lang rx_digit) (lang (RStar rx_space))))))))))"
  proof -
    from w1 have a1: "w1 \<in> lang (rx_plus rx_space)" by (simp only: lang_plus_space simp_thms)
    from w2 have a2: "w2 \<in> lang (rx_plus rx_space)" by (simp only: lang_plus_space simp_thms)
    from w3 have a3: "w3 \<in> lang (RStar rx_space)" by (simp only: lang_star_space)
    show ?thesis by (intro concI a1 a2 a3 m dd(2,3) yy(2-5))
  qed
  moreover have "u = [c1] @ d2 @ w1 @ m @ w2 @ [a] @ [b] @ [c] @ [e] @ w3"
    by (simp add: u s dd(1) yy(1))
  ultimately show "u \<in> lang date_pattern"
    by (simp only: date_pattern_lang_unfold)
qed

lemma is_date_line_iff: "is_date_line p \<longleftrightarrow> date_shaped (strip p)"
proof
  assume "is_date_line p"
  then have "rx_fullmatch date_pattern (strip p) \<or>
    (strip p \<noteq> [] \<and> last (strip p) = CHR 0x0A \<and> rx_fullmatch date_pattern (butlast (strip p)))"
    by (simp add: is_date_line_def re_match_dollar_def)
  moreover have "\<not> (strip p \<noteq> [] \<and> last (strip p) = CHR 0x0A)"
    using strip_ends [of p] by (auto simp: is_space_def)
  ultimately have "strip p \<in> lang date_pattern" by (auto simp: rx_fullmatch_iff)
  then obtain t w3 where h: "strip p = t @ w3" "date_shaped t" "\<forall>c\<in>set w3. is_space c"
    unfolding date_pattern_lang by (elim exE conjE)
  have "w3 = []"
  proof (rule ccontr)
    assume n: "w3 \<noteq> []"
    with h(1) have "last (strip p) = last w3" by simp
    moreover from n h(3) have "is_space (last w3)" by simp
    moreover from n h(1) strip_ends [of p] have "\<not> is_space (last (strip p))" by simp
    ultimately show False by simp
  qed
  with h show "date_shaped (strip p)" by simp
next
  assume "date_shaped (strip p)"
  then have "strip p \<in> lang date_pattern"
    unfolding date_pattern_lang
    by (intro exI [of _ "strip p"] exI [of _ "[]"]) simp
  then show "is_date_line p"
    by (simp add: is_date_line_def re_match_dollar_def rx_fullmatch_iff)
qed

lemma date_loop_eq:
  "date_loop ps i self =
     (case find is_date_line ps of
        None \<Rightarrow> (False, self)
      | Some p \<Rightarrow>
          (True, if strptime_ok (strip p) then self
                 else append_issue (date_invalid_issue (strip p)
                        (i + int (length (takeWhile (\<lambda>q. \<not> is_date_line q) ps)))) self))"
proof (induction ps arbitrary: i)
  case Nil
  show ?case by simp
next
  case (Cons p ps)
  show ?case
  proof (cases "is_date_line p")
    case True
    then show ?thesis by (simp add: is_date_line_def Let_def)
  next
    case False
    then have "date_loop (p # ps) i self = date_loop ps (i + 1) self"
      by (simp add: is_date_line_def Let_def)
    with False show ?thesis by (simp add: Cons.IH ac_simps split: option.splits)
  qed
qed

text \<open>
  C3. The Date check looks at the first five paragraphs only (all of them if there are
  fewer) and stops at the first whose trimmed text is a date line. Without such a
  paragraph it adds exactly one CRITICAL. With one, it adds nothing if the standard
  library accepts the text as a calendar date, and otherwise exactly one WARNING, with the
  number of that paragraph, and no CRITICAL; paragraphs after the first date line play no
  part. A date line is a text that, trimmed, consists of one or two digits, whitespace, a
  full month name, whitespace and four digits, with nothing after them.
\<close>

theorem date_check:
  "issues (validate_date self) = issues self @
     (case find is_date_line (take 5 (paragraphs self)) of
        None \<Rightarrow>
          [ValidationIssue CRITICAL ''Date''
             (if paragraphs self = [] then ''Document is empty''
              else ''Missing or incorrectly formatted date. Expected format: 'DD Month YYYY' '' @
                   ''(e.g., '12 March 2025')'') None]
      | Some p \<Rightarrow>
          if strptime_ok (strip p) then []
          else [ValidationIssue WARNING ''Date''
                  (''Date format appears correct but may be invalid: '' @ strip p)
                  (Some (int (length (takeWhile (\<lambda>q. \<not> is_date_line q)
                                       (take 5 (paragraphs self)))) + 1))]) \<and>
   (is_date_line p \<longleftrightarrow> date_shaped (strip p))"
proof
  show "is_date_line p \<longleftrightarrow> date_shaped (strip p)" by (rule is_date_line_iff)
  show "issues (validate_date self) = issues self @
     (case find is_date_line (take 5 (paragraphs self)) of
        None \<Rightarrow>
          [ValidationIssue CRITICAL ''Date''
             (if paragraphs self = [] then ''Document is empty''
              else ''Missing or incorrectly formatted date. Expected format: 'DD Month YYYY' '' @
                   ''(e.g., '12 March 2025')'') None]
      | Some p \<Rightarrow>
          if strptime_ok (strip p) then []
          else [ValidationIssue WARNING ''Date''
                  (''Date format appears correct but may be invalid: '' @ strip p)
                  (Some (int (length (takeWhile (\<lambda>q. \<not> is_date_line q)
                                       (take 5 (paragraphs self)))) + 1))])"
  proof (cases "paragraphs self = []")
    case True
    then show ?thesis by (simp add: validate_date_def)
  next
    case False
    then show ?thesis
      by (simp add: validate_date_def date_loop_eq date_missing_issue_def
          date_invalid_issue_def split: option.splits)
  qed
qed

lemma february_memo_find:
  "find is_date_line (take 5 (paragraphs february_memo)) = Some '' 31 February 2025 ''"
  by code_simp

lemma february_memo_strptime: "\<not> strptime_ok ''31 February 2025''"
  by code_simp

lemma february_memo_index:
  "length (takeWhile (\<lambda>q. \<not> is_date_line q) (take 5 (paragraphs february_memo))) = 1"
  by code_simp

lemma february_strip: "strip '' 31 February 2025 '' = ''31 February 2025''"
  by code_simp

theorem date_check_witness:
  "issues (validate_date february_memo) =
     [ValidationIssue WARNING ''Date''
        ''Date format appears correct but may be invalid: 31 February 2025'' (Some 2)] \<and>
   date_shaped ''31 February 2025''"
proof -
  have i: "issues february_memo = []" by (simp add: february_memo_def loaded_def)
  have d: "is_date_line '' 31 February 2025 ''" by code_simp
  from date_check [of february_memo "'' 31 February 2025 ''"]
  show ?thesis
    by (simp add: i d february_memo_find february_memo_strptime february_memo_index
        february_strip)
qed

section \<open>The attachments scan\<close>

lemma tab_pattern_match: "re_match tab_pattern t \<longleftrightarrow> is_tab_line t"
  by (simp only: tab_pattern_def rx_space_def rx_digit_def lit_plus_plus_match is_tab_line_def)

lemma tab_pattern_match_ext: "re_match tab_pattern = is_tab_line"
  by (rule ext) (rule tab_pattern_match)

lemma collect_tabs_eq:
  "collect_tabs ps = filter (re_match tab_pattern)
     (takeWhile (\<lambda>text. re_match tab_pattern text \<or> text = []) (map strip ps))"
  by (induction ps) (simp_all add: Let_def)

lemma attachments_issues:
  assumes "find_paragraph_index self attachments_pattern 0 = attach_idx" and "attach_idx \<noteq> -1"
  shows "issues (validate_attachments self) = issues self @
    [let found_tabs = collect_tabs (drop (nat (attach_idx + 1)) (paragraphs self)) in
     if found_tabs = [] then
       ValidationIssue WARNING ''Attachments'' ''Attachments section found but no tabs listed''
         (Some (attach_idx + 1))
     else ValidationIssue INFO ''Attachments''
            (''Found '' @ py_str (length found_tabs) @ '' attachment tab(s)'') None]"
  using assms by (simp add: validate_attachments_def Let_def tab_count_issue_def)

text \<open>
  C5. The scan after the anchor line collects the trimmed text of every paragraph that
  starts with \<open>Tab\<close>, whitespace and digits, passes over empty paragraphs, and ends at
  the first paragraph that is neither: what it returns are the tab lines among the
  longest run of tab lines and empty paragraphs. The check then adds one issue, a WARNING
  if no tab was collected and else an INFO with their number. For "Tab 1", "", "Tab 2",
  "Notes", "Tab 3" two tabs are collected and the INFO reads "Found 2 attachment tab(s)".
\<close>

theorem attachments_scan:
  "collect_tabs ps = filter is_tab_line
     (takeWhile (\<lambda>text. is_tab_line text \<or> text = []) (map strip ps)) \<and>
   (find_paragraph_index self attachments_pattern 0 = attach_idx \<and> attach_idx \<noteq> -1 \<longrightarrow>
      issues (validate_attachments self) = issues self @
        [let found_tabs = collect_tabs (drop (nat (attach_idx + 1)) (paragraphs self)) in
         if found_tabs = [] then
           ValidationIssue WARNING ''Attachments''
             ''Attachments section found but no tabs listed'' (Some (attach_idx + 1))
         else ValidationIssue INFO ''Attachments''
                (''Found '' @ py_str (length found_tabs) @ '' attachment tab(s)'') None]) \<and>
   collect_tabs [''Tab 1'', '''', ''Tab 2'', ''Notes'', ''Tab 3''] = [''Tab 1'', ''Tab 2''] \<and>
   ''Found '' @ py_str (length [''Tab 1'', ''Tab 2'']) @ '' attachment tab(s)'' =
     ''Found 2 attachment tab(s)''"
proof (intro conjI impI)
  have "collect_tabs ps = filter (re_match tab_pattern)
     (takeWhile (\<lambda>text. re_match tab_pattern text \<or> text = []) (map strip ps))"
    by (rule collect_tabs_eq)
  then show "collect_tabs ps = filter is_tab_line
     (takeWhile (\<lambda>text. is_tab_line text \<or> text = []) (map strip ps))"
    by (simp only: tab_pattern_match_ext tab_pattern_match)
  show "collect_tabs [''Tab 1'', '''', ''Tab 2'', ''Notes'', ''Tab 3''] = [''Tab 1'', ''Tab 2'']"
    by code_simp
  show "''Found '' @ py_str (length [''Tab 1'', ''Tab 2'']) @ '' attachment tab(s)'' =
     ''Found 2 attachment tab(s)''"
    by code_simp
next
  assume "find_paragraph_index self attachments_pattern 0 = attach_idx \<and> attach_idx \<noteq> -1"
  then show "issues (validate_attachments self) = issues self @
        [let found_tabs = collect_tabs (drop (nat (attach_idx + 1)) (paragraphs self)) in
         if found_tabs = [] then
           ValidationIssue WARNING ''Attachments''
             ''Attachments section found but no tabs listed'' (Some (attach_idx + 1))
         else ValidationIssue INFO ''Attachments''
                (''Found '' @ py_str (length found_tabs) @ '' attachment tab(s)'') None]"
    using attachments_issues [of self attach_idx] by simp
qed

theorem attachments_scan_witness:
  "find_paragraph_index tabs_memo attachments_pattern 0 = 1 \<and>
   issues (validate_attachments tabs_memo) =
     [ValidationIssue INFO ''Attachments'' ''Found 2 attachment tab(s)'' None]"
proof -
  have f: "find_paragraph_index tabs_memo attachments_pattern 0 = 1" by code_simp
  have i: "issues tabs_memo = []" by (simp add: tabs_memo_def loaded_def)
  have d: "drop (nat (1 + 1)) (paragraphs tabs_memo) =
             [''Tab 1'', '''', ''Tab 2'', ''Notes'', ''Tab 3'']"
    by (simp add: tabs_memo_def loaded_def text_document_def)
  from attachments_scan [of "[]" tabs_memo 1] f i d
  show ?thesis by (simp add: Let_def)
qed

section \<open>Rounding to a float is monotone\<close>













lemma float_round_zero [simp]: "float_round 0 = 0"
  by (simp add: float_round_def)













section \<open>The page margins check\<close>




end
